theory Spec2Isabelle
  imports Main "HOL-Library.Sublist"
begin

section \<open>The dependency graph and its cycle-tolerant ordering\<close>

text \<open>
  The bundler (\<^verbatim>\<open>bundler_logic.py\<close>) keeps the dependency graph in a Python \<^verbatim>\<open>dict\<close> from
  a file to the \<^verbatim>\<open>set\<close> of files it imports. A \<^verbatim>\<open>dict\<close> iterates in insertion order, so
  the graph is an association list whose keys appear in the order they were inserted. A
  \<^verbatim>\<open>set\<close> iterates in an order the language leaves open (it follows the hashes of the
  elements); each value of the graph is therefore the list of the set's elements in the
  order in which this run iterates over them. Statements below quantify over all graphs
  and hence over all iteration orders.
\<close>

type_synonym 'a graph = "('a \<times> 'a list) list"

text \<open>\<^verbatim>\<open>graph.get(node, set())\<close>: the dependencies of a key, nothing for any other node.\<close>

definition graph_get :: "'a graph \<Rightarrow> 'a \<Rightarrow> 'a list" where
  "graph_get g n = (case map_of g n of None \<Rightarrow> [] | Some ds \<Rightarrow> ds)"

text \<open>
  The exceptions of the Python code that the model distinguishes. The sorter can raise two:
  the recursion of \<^verbatim>\<open>visit\<close> running out of stack (\<^verbatim>\<open>RecursionError\<close>), and
  \<^verbatim>\<open>temp_visited.remove(node)\<close> on a node that is not in the set (\<^verbatim>\<open>KeyError\<close>). The others
  come from \<^verbatim>\<open>pathlib\<close> (\<^verbatim>\<open>ValueError\<close> from \<^verbatim>\<open>relative_to\<close> and \<^verbatim>\<open>with_suffix\<close>,
  \<^verbatim>\<open>IndexError\<close> from indexing \<^verbatim>\<open>parents\<close>), from opening files (\<^verbatim>\<open>OSError\<close>, of which
  \<^verbatim>\<open>IOError\<close> is an alias), from reading a local variable that was never assigned
  (\<^verbatim>\<open>UnboundLocalError\<close>) and from \<^verbatim>\<open>Path.resolve()\<close> (\<^verbatim>\<open>ValueError\<close> for a path with a
  null character, \<^verbatim>\<open>RuntimeError\<close> for a loop of symbolic links); \<open>OtherException\<close> stands
  for any other subclass of \<^verbatim>\<open>Exception\<close>, with its text.
\<close>

datatype error =
  RecursionError | KeyError | ValueError | IndexError | OSError | UnboundLocalError
  | RuntimeError | OtherException string

text \<open>
  The variables that the nested function \<^verbatim>\<open>visit\<close> shares with \<^verbatim>\<open>topological_sort\<close>.
  \<^verbatim>\<open>visited\<close> is only tested for membership, so it is a set; \<^verbatim>\<open>temp_visited\<close> is also
  iterated over (to record cycle edges), so it is the list of its elements, here in the order
  in which they were added. That order only decides the order of the reported edges, never
  which edges are reported; the statements below speak about the set of reported edges.
\<close>

record 'a sort_state =
  result :: "'a list"
  visited :: "'a set"
  temp_visited :: "'a list"
  edges_in_cycles :: "('a \<times> 'a) list"

text \<open>
  The nested function \<^verbatim>\<open>visit\<close> (lines 220-238) and its loop over the neighbours. The
  first argument is the number of nested calls still available: each call of \<^verbatim>\<open>visit\<close> from
  the loop uses up one, and a call with none left is the interpreter's \<^verbatim>\<open>RecursionError\<close>.
\<close>

fun visit :: "nat \<Rightarrow> 'a graph \<Rightarrow> 'a \<Rightarrow> 'a sort_state \<Rightarrow> error + 'a sort_state"
and visit_neighbors :: "nat \<Rightarrow> 'a graph \<Rightarrow> 'a list \<Rightarrow> 'a sort_state \<Rightarrow> error + 'a sort_state"
where
  "visit 0 g node st = Inl RecursionError"
| "visit (Suc depth) g node st =
    (if node \<in> set (temp_visited st) then
       Inr (st\<lparr>edges_in_cycles := edges_in_cycles st @
              map (\<lambda>temp_node. (temp_node, node))
                (filter (\<lambda>temp_node. node \<in> set (graph_get g temp_node)) (temp_visited st))\<rparr>)
     else if node \<in> visited st then Inr st
     else
       (case visit_neighbors depth g (graph_get g node)
               (st\<lparr>temp_visited := temp_visited st @ [node]\<rparr>) of
          Inl e \<Rightarrow> Inl e
        | Inr st' \<Rightarrow>
            if node \<in> set (temp_visited st') then
              Inr (st'\<lparr>temp_visited := removeAll node (temp_visited st'),
                       visited := insert node (visited st'),
                       result := result st' @ [node]\<rparr>)
            else Inl KeyError))"
| "visit_neighbors depth g [] st = Inr st"
| "visit_neighbors depth g (neighbor # rest) st =
    (case visit depth g neighbor st of
       Inl e \<Rightarrow> Inl e
     | Inr st' \<Rightarrow> visit_neighbors depth g rest st')"

text \<open>The driver loop \<^verbatim>\<open>for node in graph: if node not in visited: visit(node)\<close>.\<close>

fun sort_loop :: "nat \<Rightarrow> 'a graph \<Rightarrow> 'a list \<Rightarrow> 'a sort_state \<Rightarrow> error + 'a sort_state" where
  "sort_loop depth g [] st = Inr st"
| "sort_loop depth g (node # rest) st =
    (if node \<notin> visited st then
       (case visit depth g node st of
          Inl e \<Rightarrow> Inl e
        | Inr st' \<Rightarrow> sort_loop depth g rest st')
     else sort_loop depth g rest st)"

definition initial_state :: "'a sort_state" where
  "initial_state = \<lparr>result = [], visited = {}, temp_visited = [], edges_in_cycles = []\<rparr>"

definition topological_sort :: "nat \<Rightarrow> 'a graph \<Rightarrow> error + ('a list \<times> ('a \<times> 'a) list)" where
  "topological_sort depth g =
    (case sort_loop depth g (map fst g) initial_state of
       Inl e \<Rightarrow> Inl e
     | Inr st \<Rightarrow> Inr (result st, edges_in_cycles st))"


section \<open>Properties of the ordering\<close>

text \<open>\<open>precedes v u xs\<close>: \<open>v\<close> occurs in \<open>xs\<close> before the first occurrence of \<open>u\<close>.\<close>

definition precedes :: "'a \<Rightarrow> 'a \<Rightarrow> 'a list \<Rightarrow> bool" where
  "precedes v u xs = (u \<in> set xs \<and> v \<in> set (takeWhile (\<lambda>x. x \<noteq> u) xs))"

lemma precedes_append: "precedes v u xs \<Longrightarrow> precedes v u (xs @ ys)"
proof -
  assume p: "precedes v u xs"
  then have "u \<in> set xs" by (simp add: precedes_def)
  then have "takeWhile (\<lambda>x. x \<noteq> u) (xs @ ys) = takeWhile (\<lambda>x. x \<noteq> u) xs"
    by (intro takeWhile_append1[of u]) simp_all
  with p show ?thesis by (simp add: precedes_def)
qed

lemma precedes_prefix: "prefix xs zs \<Longrightarrow> precedes v u xs \<Longrightarrow> precedes v u zs"
  by (auto simp: prefix_def precedes_append)

lemma precedes_snoc: "v \<in> set xs \<Longrightarrow> u \<notin> set xs \<Longrightarrow> precedes v u (xs @ [u])"
proof -
  assume v: "v \<in> set xs" and u: "u \<notin> set xs"
  have "takeWhile (\<lambda>x. x \<noteq> u) (xs @ [u]) = xs @ takeWhile (\<lambda>x. x \<noteq> u) [u]"
    using u by (intro takeWhile_append2) auto
  with v show ?thesis by (simp add: precedes_def)
qed

lemma precedes_in_set: "precedes v u xs \<Longrightarrow> v \<in> set xs \<and> u \<in> set xs"
  by (auto simp: precedes_def dest: set_takeWhileD)

lemma visit_frame:
  "visit d g n st = Inr st' \<Longrightarrow>
     temp_visited st' = temp_visited st \<and> visited st \<subseteq> visited st' \<and>
     prefix (result st) (result st') \<and> prefix (edges_in_cycles st) (edges_in_cycles st')"
  "visit_neighbors d g ns st = Inr st' \<Longrightarrow>
     temp_visited st' = temp_visited st \<and> visited st \<subseteq> visited st' \<and>
     prefix (result st) (result st') \<and> prefix (edges_in_cycles st) (edges_in_cycles st')"
proof (induction d g n st and d g ns st arbitrary: st' and st' rule: visit_visit_neighbors.induct)
  case (1 g node st)
  then show ?case by simp
next
  case (2 depth g node st)
  show ?case
  proof (cases "node \<in> set (temp_visited st)")
    case True
    with 2(2) show ?thesis by auto
  next
    case nt: False
    show ?thesis
    proof (cases "node \<in> visited st")
      case True
      with nt 2(2) show ?thesis by auto
    next
      case nv: False
      from 2(2) nt nv obtain st1 where
        s1: "visit_neighbors depth g (graph_get g node) (st\<lparr>temp_visited := temp_visited st @ [node]\<rparr>) = Inr st1"
        and s2: "st' = st1\<lparr>temp_visited := removeAll node (temp_visited st1),
                       visited := insert node (visited st1),
                       result := result st1 @ [node]\<rparr>"
        by (auto split: sum.splits if_splits)
      from 2(1)[OF nt nv s1] have f: "temp_visited st1 = temp_visited st @ [node]"
        "visited st \<subseteq> visited st1" "prefix (result st) (result st1)"
        "prefix (edges_in_cycles st) (edges_in_cycles st1)" by simp_all
      show ?thesis using f nt by (auto simp: s2 prefix_def)
    qed
  qed
next
  case (3 depth g st)
  then show ?case by simp
next
  case (4 depth g neighbor rest st)
  from 4(3) obtain st1 where s1: "visit depth g neighbor st = Inr st1"
    and s2: "visit_neighbors depth g rest st1 = Inr st'"
    by (auto split: sum.splits)
  from 4(1)[OF s1] 4(2)[OF s1 s2] show ?case
    by (auto intro: prefix_order.trans)
qed


text \<open>
  The invariant of the traversal: the result lists the finished nodes once each; no node is
  both finished and in progress; every edge leaving a finished node either was reported as a
  cycle edge or points to a node placed earlier; and every edge leaving a finished node
  points to a finished node or to one in progress.
\<close>

definition sort_inv :: "'a graph \<Rightarrow> 'a sort_state \<Rightarrow> bool" where
  "sort_inv g st \<longleftrightarrow>
     distinct (result st) \<and> set (result st) = visited st \<and>
     distinct (temp_visited st) \<and> visited st \<inter> set (temp_visited st) = {} \<and>
     (\<forall>u\<in>visited st. \<forall>v\<in>set (graph_get g u).
        (u, v) \<in> set (edges_in_cycles st) \<or> precedes v u (result st)) \<and>
     (\<forall>u\<in>visited st. set (graph_get g u) \<subseteq> visited st \<union> set (temp_visited st))"

text \<open>
  What one call \<^verbatim>\<open>visit(n)\<close> achieves: \<open>n\<close> is finished, or it is in progress and every
  in-progress node that depends on it has its edge to \<open>n\<close> reported.
\<close>

definition settled :: "'a graph \<Rightarrow> 'a sort_state \<Rightarrow> 'a \<Rightarrow> bool" where
  "settled g st n \<longleftrightarrow>
     n \<in> visited st \<or>
     (n \<in> set (temp_visited st) \<and>
      (\<forall>t\<in>set (temp_visited st). n \<in> set (graph_get g t) \<longrightarrow> (t, n) \<in> set (edges_in_cycles st)))"

lemma settled_mono:
  assumes "settled g st n" "temp_visited st' = temp_visited st" "visited st \<subseteq> visited st'"
    "prefix (edges_in_cycles st) (edges_in_cycles st')"
  shows "settled g st' n"
  using assms unfolding settled_def by (auto dest: set_mono_prefix)

lemma sort_inv_push:
  assumes "sort_inv g st" "node \<notin> set (temp_visited st)" "node \<notin> visited st"
  shows "sort_inv g (st\<lparr>temp_visited := temp_visited st @ [node]\<rparr>)"
  using assms unfolding sort_inv_def by auto

lemma sort_inv_pop:
  assumes inv: "sort_inv g st1" and t: "temp_visited st1 = tv @ [node]"
    and nb: "\<forall>n\<in>set (graph_get g node). settled g st1 n"
  shows "sort_inv g (st1\<lparr>temp_visited := removeAll node (temp_visited st1),
                       visited := insert node (visited st1),
                       result := result st1 @ [node]\<rparr>)"
proof -
  from inv t have nt: "node \<notin> set tv" and nv: "node \<notin> visited st1"
    and nr: "node \<notin> set (result st1)"
    unfolding sort_inv_def by auto
  have rm: "removeAll node (temp_visited st1) = tv" using nt t by simp
  have e: "(node, v) \<in> set (edges_in_cycles st1) \<or> precedes v node (result st1 @ [node])"
    if "v \<in> set (graph_get g node)" for v
  proof -
    from nb that have "settled g st1 v" by blast
    then show ?thesis
    proof (unfold settled_def, elim disjE conjE)
      assume "v \<in> visited st1"
      with inv have "v \<in> set (result st1)" unfolding sort_inv_def by simp
      with nr show ?thesis by (simp add: precedes_snoc)
    next
      assume "\<forall>t\<in>set (temp_visited st1). v \<in> set (graph_get g t) \<longrightarrow> (t, v) \<in> set (edges_in_cycles st1)"
      with t that show ?thesis by simp
    qed
  qed
  have c: "v \<in> insert node (visited st1) \<union> set tv" if "v \<in> set (graph_get g node)" for v
  proof -
    from nb that have "settled g st1 v" by blast
    then show ?thesis unfolding settled_def using t by auto
  qed
  have old: "(u, v) \<in> set (edges_in_cycles st1) \<or> precedes v u (result st1 @ [node])"
    if "u \<in> visited st1" "v \<in> set (graph_get g u)" for u v
  proof -
    from inv that have "(u, v) \<in> set (edges_in_cycles st1) \<or> precedes v u (result st1)"
      unfolding sort_inv_def by blast
    then show ?thesis using precedes_append by fast
  qed
  have oldc: "v \<in> insert node (visited st1) \<union> set tv"
    if "u \<in> visited st1" "v \<in> set (graph_get g u)" for u v
  proof -
    from inv that have "v \<in> visited st1 \<union> set (temp_visited st1)"
      unfolding sort_inv_def by blast
    then show ?thesis using t by auto
  qed
  have base: "distinct (result st1 @ [node])" "set (result st1 @ [node]) = insert node (visited st1)"
    "distinct tv" "insert node (visited st1) \<inter> set tv = {}"
    using inv t nt nv nr unfolding sort_inv_def by auto
  show ?thesis
    unfolding sort_inv_def using base e c old oldc by (simp add: rm) blast
qed


lemma sort_inv_record_edge:
  assumes "sort_inv g st"
  shows "sort_inv g (st\<lparr>edges_in_cycles := edges_in_cycles st @ es\<rparr>)"
  using assms unfolding sort_inv_def by simp blast

lemma visit_inv:
  "visit d g n st = Inr st' \<Longrightarrow> sort_inv g st \<Longrightarrow> sort_inv g st' \<and> settled g st' n"
  "visit_neighbors d g ns st = Inr st' \<Longrightarrow> sort_inv g st \<Longrightarrow>
     sort_inv g st' \<and> (\<forall>n\<in>set ns. settled g st' n)"
proof (induction d g n st and d g ns st arbitrary: st' and st' rule: visit_visit_neighbors.induct)
  case (1 g node st)
  then show ?case by simp
next
  case (2 depth g node st)
  show ?case
  proof (cases "node \<in> set (temp_visited st)")
    case True
    with 2(2) have s: "st' = st\<lparr>edges_in_cycles := edges_in_cycles st @
              map (\<lambda>temp_node. (temp_node, node))
                (filter (\<lambda>temp_node. node \<in> set (graph_get g temp_node)) (temp_visited st))\<rparr>"
      by auto
    have "sort_inv g st'" unfolding s using 2(3) by (rule sort_inv_record_edge)
    moreover have "settled g st' node" using True unfolding s settled_def by auto
    ultimately show ?thesis by simp
  next
    case nt: False
    show ?thesis
    proof (cases "node \<in> visited st")
      case True
      with nt 2(2) have "st' = st" by auto
      with True 2(3) show ?thesis by (simp add: settled_def)
    next
      case nv: False
      from 2(2) nt nv obtain st1 where
        s1: "visit_neighbors depth g (graph_get g node) (st\<lparr>temp_visited := temp_visited st @ [node]\<rparr>) = Inr st1"
        and s2: "st' = st1\<lparr>temp_visited := removeAll node (temp_visited st1),
                       visited := insert node (visited st1),
                       result := result st1 @ [node]\<rparr>"
        by (auto split: sum.splits if_splits)
      have i0: "sort_inv g (st\<lparr>temp_visited := temp_visited st @ [node]\<rparr>)"
        using 2(3) nt nv by (rule sort_inv_push)
      from 2(1)[OF nt nv s1 i0] have i1: "sort_inv g st1"
        and nb: "\<forall>n\<in>set (graph_get g node). settled g st1 n" by simp_all
      from visit_frame(2)[OF s1] have t: "temp_visited st1 = temp_visited st @ [node]" by simp
      have "sort_inv g st'" unfolding s2 using i1 t nb by (rule sort_inv_pop)
      moreover have "settled g st' node" unfolding s2 settled_def by simp
      ultimately show ?thesis by simp
    qed
  qed
next
  case (3 depth g st)
  then show ?case by simp
next
  case (4 depth g neighbor rest st)
  from 4(3) obtain st1 where s1: "visit depth g neighbor st = Inr st1"
    and s2: "visit_neighbors depth g rest st1 = Inr st'"
    by (auto split: sum.splits)
  from 4(1)[OF s1 4(4)] have i1: "sort_inv g st1" and n1: "settled g st1 neighbor" by simp_all
  from 4(2)[OF s1 s2 i1] have i2: "sort_inv g st'" and n2: "\<forall>n\<in>set rest. settled g st' n"
    by simp_all
  have "settled g st' neighbor"
    using settled_mono[OF n1, of st'] visit_frame(2)[OF s2] by simp
  with i2 n2 show ?case by simp
qed


definition closed_under :: "'a graph \<Rightarrow> 'a set \<Rightarrow> bool" where
  "closed_under g N \<longleftrightarrow> (\<forall>x\<in>N. set (graph_get g x) \<subseteq> N)"

lemma visit_region:
  "visit d g n st = Inr st' \<Longrightarrow> closed_under g N \<Longrightarrow> n \<in> N \<Longrightarrow> visited st' \<subseteq> visited st \<union> N"
  "visit_neighbors d g ns st = Inr st' \<Longrightarrow> closed_under g N \<Longrightarrow> set ns \<subseteq> N \<Longrightarrow>
     visited st' \<subseteq> visited st \<union> N"
proof (induction d g n st and d g ns st arbitrary: st' and st' rule: visit_visit_neighbors.induct)
  case (1 g node st)
  then show ?case by simp
next
  case (2 depth g node st)
  show ?case
  proof (cases "node \<in> set (temp_visited st) \<or> node \<in> visited st")
    case True
    with 2(2) show ?thesis by (auto split: if_splits)
  next
    case False
    then have nt: "node \<notin> set (temp_visited st)" and nv: "node \<notin> visited st" by simp_all
    from 2(2) nt nv obtain st1 where
      s1: "visit_neighbors depth g (graph_get g node) (st\<lparr>temp_visited := temp_visited st @ [node]\<rparr>) = Inr st1"
      and s2: "visited st' = insert node (visited st1)"
      by (auto split: sum.splits if_splits)
    from 2(3,4) have "set (graph_get g node) \<subseteq> N" unfolding closed_under_def by blast
    from 2(1)[OF nt nv s1 2(3) this] have "visited st1 \<subseteq> visited st \<union> N" by simp
    with s2 2(4) show ?thesis by auto
  qed
next
  case (3 depth g st)
  then show ?case by simp
next
  case (4 depth g neighbor rest st)
  from 4(3) obtain st1 where s1: "visit depth g neighbor st = Inr st1"
    and s2: "visit_neighbors depth g rest st1 = Inr st'"
    by (auto split: sum.splits)
  from 4(1)[OF s1 4(4)] 4(5) have "visited st1 \<subseteq> visited st \<union> N" by simp
  moreover from 4(2)[OF s1 s2 4(4)] 4(5) have "visited st' \<subseteq> visited st1 \<union> N" by simp
  ultimately show ?case by blast
qed

lemma visit_succeeds:
  "finite N \<Longrightarrow> closed_under g N \<Longrightarrow> n \<in> N \<Longrightarrow>
     card (N - (visited st \<union> set (temp_visited st))) < d \<Longrightarrow> \<exists>st'. visit d g n st = Inr st'"
  "finite N \<Longrightarrow> closed_under g N \<Longrightarrow> set ns \<subseteq> N \<Longrightarrow>
     card (N - (visited st \<union> set (temp_visited st))) < d \<Longrightarrow>
     \<exists>st'. visit_neighbors d g ns st = Inr st'"
proof (induction d g n st and d g ns st rule: visit_visit_neighbors.induct)
  case (1 g node st)
  then show ?case by simp
next
  case (2 depth g node st)
  show ?case
  proof (cases "node \<in> set (temp_visited st) \<or> node \<in> visited st")
    case True
    then show ?thesis by auto
  next
    case False
    then have nt: "node \<notin> set (temp_visited st)" and nv: "node \<notin> visited st" by simp_all
    let ?st0 = "st\<lparr>temp_visited := temp_visited st @ [node]\<rparr>"
    from 2(3,4) have sub: "set (graph_get g node) \<subseteq> N" unfolding closed_under_def by blast
    have "N - (visited ?st0 \<union> set (temp_visited ?st0)) \<subset> N - (visited st \<union> set (temp_visited st))"
      using nt nv 2(4) by auto
    with 2(2) have "card (N - (visited ?st0 \<union> set (temp_visited ?st0)))
        < card (N - (visited st \<union> set (temp_visited st)))"
      by (intro psubset_card_mono) simp_all
    with 2(5) have "card (N - (visited ?st0 \<union> set (temp_visited ?st0))) < depth" by simp
    from 2(1)[OF nt nv 2(2) 2(3) sub this] obtain st1
      where s1: "visit_neighbors depth g (graph_get g node) ?st0 = Inr st1" by blast
    from visit_frame(2)[OF s1] have "node \<in> set (temp_visited st1)" by simp
    with s1 nt nv show ?thesis by simp
  qed
next
  case (3 depth g st)
  then show ?case by simp
next
  case (4 depth g neighbor rest st)
  from 4(3-6) have "\<exists>st'. visit depth g neighbor st = Inr st'" by (intro 4(1)) simp_all
  then obtain st1 where s1: "visit depth g neighbor st = Inr st1" by blast
  from visit_frame(1)[OF s1] have
    "N - (visited st1 \<union> set (temp_visited st1)) \<subseteq> N - (visited st \<union> set (temp_visited st))"
    by auto
  with 4(3) have "card (N - (visited st1 \<union> set (temp_visited st1)))
      \<le> card (N - (visited st \<union> set (temp_visited st)))"
    by (intro card_mono) simp_all
  with 4(6) have "card (N - (visited st1 \<union> set (temp_visited st1))) < depth" by simp
  from 4(2)[OF s1 4(3) 4(4) _ this] 4(5) obtain st' where "visit_neighbors depth g rest st1 = Inr st'"
    by auto
  with s1 show ?case by simp
qed


definition nodes :: "'a graph \<Rightarrow> 'a list" where
  "nodes g = map fst g @ concat (map (\<lambda>k. graph_get g k) (map fst g))"

lemma graph_get_in_nodes: "v \<in> set (graph_get g u) \<Longrightarrow> u \<in> set (map fst g) \<and> v \<in> set (nodes g)"
proof -
  assume v: "v \<in> set (graph_get g u)"
  then have "map_of g u \<noteq> None" by (cases "map_of g u") (simp_all add: graph_get_def)
  then have "u \<in> set (map fst g)" by (simp add: map_of_eq_None_iff)
  with v show ?thesis by (auto simp: nodes_def)
qed

lemma closed_under_nodes: "closed_under g (set (nodes g))"
  unfolding closed_under_def using graph_get_in_nodes by fast

lemma sort_loop_frame:
  "sort_loop d g ks st = Inr st' \<Longrightarrow>
     temp_visited st' = temp_visited st \<and> visited st \<subseteq> visited st' \<and>
     prefix (result st) (result st') \<and> prefix (edges_in_cycles st) (edges_in_cycles st')"
proof (induction ks arbitrary: st)
  case Nil
  then show ?case by simp
next
  case (Cons k ks)
  show ?case
  proof (cases "k \<in> visited st")
    case True
    with Cons show ?thesis by simp
  next
    case False
    with Cons.prems obtain st1 where s1: "visit d g k st = Inr st1"
      and s2: "sort_loop d g ks st1 = Inr st'" by (auto split: sum.splits)
    from visit_frame(1)[OF s1] Cons.IH[OF s2] show ?thesis
      by (auto intro: prefix_order.trans)
  qed
qed

lemma sort_loop_inv:
  "sort_loop d g ks st = Inr st' \<Longrightarrow> sort_inv g st \<Longrightarrow> temp_visited st = [] \<Longrightarrow>
     sort_inv g st' \<and> set ks \<subseteq> visited st'"
proof (induction ks arbitrary: st)
  case Nil
  then show ?case by simp
next
  case (Cons k ks)
  show ?case
  proof (cases "k \<in> visited st")
    case True
    with Cons.prems have s2: "sort_loop d g ks st = Inr st'" by simp
    from Cons.IH[OF s2 Cons.prems(2,3)] sort_loop_frame[OF s2] True show ?thesis by auto
  next
    case False
    with Cons.prems obtain st1 where s1: "visit d g k st = Inr st1"
      and s2: "sort_loop d g ks st1 = Inr st'" by (auto split: sum.splits)
    from visit_inv(1)[OF s1 Cons.prems(2)] have i1: "sort_inv g st1" and k1: "settled g st1 k"
      by simp_all
    from visit_frame(1)[OF s1] Cons.prems(3) have t1: "temp_visited st1 = []" by simp
    with k1 have "k \<in> visited st1" by (simp add: settled_def)
    with Cons.IH[OF s2 i1 t1] sort_loop_frame[OF s2] show ?thesis by auto
  qed
qed

lemma sort_loop_region:
  "sort_loop d g ks st = Inr st' \<Longrightarrow> closed_under g N \<Longrightarrow> set ks \<subseteq> N \<Longrightarrow>
     visited st' \<subseteq> visited st \<union> N"
proof (induction ks arbitrary: st)
  case Nil
  then show ?case by simp
next
  case (Cons k ks)
  show ?case
  proof (cases "k \<in> visited st")
    case True
    with Cons show ?thesis by simp
  next
    case False
    with Cons.prems obtain st1 where s1: "visit d g k st = Inr st1"
      and s2: "sort_loop d g ks st1 = Inr st'" by (auto split: sum.splits)
    from visit_region(1)[OF s1 Cons.prems(2)] Cons.prems(3)
    have "visited st1 \<subseteq> visited st \<union> N" by simp
    moreover from Cons.IH[OF s2 Cons.prems(2)] Cons.prems(3)
    have "visited st' \<subseteq> visited st1 \<union> N" by simp
    ultimately show ?thesis by blast
  qed
qed

lemma sort_loop_succeeds:
  "finite N \<Longrightarrow> closed_under g N \<Longrightarrow> set ks \<subseteq> N \<Longrightarrow>
     card (N - (visited st \<union> set (temp_visited st))) < d \<Longrightarrow> \<exists>st'. sort_loop d g ks st = Inr st'"
proof (induction ks arbitrary: st)
  case Nil
  then show ?case by simp
next
  case (Cons k ks)
  show ?case
  proof (cases "k \<in> visited st")
    case True
    with Cons show ?thesis by simp
  next
    case False
    from Cons.prems have "\<exists>st'. visit d g k st = Inr st'" by (intro visit_succeeds(1)[of N]) simp_all
    then obtain st1 where s1: "visit d g k st = Inr st1" by blast
    from visit_frame(1)[OF s1] have
      "N - (visited st1 \<union> set (temp_visited st1)) \<subseteq> N - (visited st \<union> set (temp_visited st))"
      by auto
    with Cons.prems(1) have "card (N - (visited st1 \<union> set (temp_visited st1)))
        \<le> card (N - (visited st \<union> set (temp_visited st)))"
      by (intro card_mono) simp_all
    with Cons.prems(4) have "card (N - (visited st1 \<union> set (temp_visited st1))) < d" by simp
    with Cons.prems have "\<exists>st'. sort_loop d g ks st1 = Inr st'" by (intro Cons.IH) simp_all
    with s1 False show ?thesis by simp
  qed
qed

lemma sort_inv_initial: "sort_inv g initial_state"
  by (simp add: sort_inv_def initial_state_def)

lemma topological_sort_correct:
  assumes d: "card (set (nodes g)) < depth"
  shows "\<exists>order cycles. topological_sort depth g = Inr (order, cycles) \<and>
           distinct order \<and> set order = set (nodes g) \<and>
           (\<forall>u v. v \<in> set (graph_get g u) \<longrightarrow> (u, v) \<in> set cycles \<or> precedes v u order)"
proof -
  have ks: "set (map fst g) \<subseteq> set (nodes g)" by (auto simp: nodes_def)
  have "card (set (nodes g) - (visited (initial_state :: 'a sort_state) \<union> set (temp_visited (initial_state :: 'a sort_state)))) < depth"
    using d by (simp add: initial_state_def)
  with closed_under_nodes[of g] ks
  have "\<exists>st'. sort_loop depth g (map fst g) initial_state = Inr st'"
    by (intro sort_loop_succeeds[of "set (nodes g)"]) simp_all
  then obtain st' where s: "sort_loop depth g (map fst g) initial_state = Inr st'" by blast
  from sort_loop_inv[OF s sort_inv_initial] have inv: "sort_inv g st'"
    and keys: "set (map fst g) \<subseteq> visited st'" by (simp_all add: initial_state_def)
  from sort_loop_frame[OF s] have t: "temp_visited st' = []" by (simp add: initial_state_def)
  from sort_loop_region[OF s closed_under_nodes ks] have sub: "visited st' \<subseteq> set (nodes g)"
    by (simp add: initial_state_def)
  have "set (nodes g) \<subseteq> visited st'"
  proof
    fix x assume "x \<in> set (nodes g)"
    then consider "x \<in> set (map fst g)" | k where "k \<in> set (map fst g)" "x \<in> set (graph_get g k)"
      by (auto simp: nodes_def)
    then show "x \<in> visited st'"
    proof cases
      case 1
      with keys show ?thesis by blast
    next
      case 2
      with keys have "k \<in> visited st'" by blast
      with inv 2(2) t show ?thesis unfolding sort_inv_def by auto
    qed
  qed
  with sub have eq: "set (result st') = set (nodes g)" using inv unfolding sort_inv_def by auto
  have "(u, v) \<in> set (edges_in_cycles st') \<or> precedes v u (result st')"
    if "v \<in> set (graph_get g u)" for u v
  proof -
    from graph_get_in_nodes[OF that] keys have "u \<in> visited st'" by blast
    with inv that show ?thesis unfolding sort_inv_def by blast
  qed
  with eq inv s show ?thesis unfolding topological_sort_def sort_inv_def by auto
qed

section \<open>Building the graph: the worklist traversal\<close>

text \<open>
  \<^verbatim>\<open>ImportAnalyzer.find_imports\<close> reads and parses one file and returns the set of project
  files it imports. For the traversal the project is the finite table of these sets, one
  list per file in the order in which the set is iterated; a file that is not in the table
  (it cannot be read or parsed) has no dependencies, as \<^verbatim>\<open>find_imports\<close> returns
  \<^verbatim>\<open>set()\<close> on every error.
\<close>

definition find_imports :: "('a \<times> 'a list) list \<Rightarrow> 'a \<Rightarrow> 'a list" where
  "find_imports project file = (case map_of project file of None \<Rightarrow> [] | Some ds \<Rightarrow> ds)"

text \<open>\<^verbatim>\<open>graph[k] = v\<close>: an existing key keeps its place, a new key goes last.\<close>

definition dict_set :: "'a graph \<Rightarrow> 'a \<Rightarrow> 'a list \<Rightarrow> 'a graph" where
  "dict_set g k v =
     (if k \<in> set (map fst g) then map (\<lambda>(k', v'). if k' = k then (k', v) else (k', v')) g
      else g @ [(k, v)])"

definition import_targets :: "('a \<times> 'a list) list \<Rightarrow> 'a set" where
  "import_targets project = (\<Union>(f, ds)\<in>set project. set ds)"

lemma find_imports_targets: "set (find_imports project f) \<subseteq> import_targets project"
proof (cases "map_of project f")
  case None
  then show ?thesis by (simp add: find_imports_def)
next
  case (Some ds)
  then have "(f, ds) \<in> set project" by (rule map_of_SomeD)
  then have "set ds \<subseteq> import_targets project" unfolding import_targets_def by blast
  with Some show ?thesis by (simp add: find_imports_def)
qed

lemma finite_import_targets: "finite (import_targets project)"
  by (auto simp: import_targets_def)

lemma build_measure_skip:
  "card (import_targets project \<union> set queue - V)
     \<le> card (insert c (import_targets project \<union> set queue) - V)"
  by (intro card_mono) (auto simp: finite_import_targets)

lemma build_measure_step:
  assumes "c \<notin> V"
  shows "card (import_targets project \<union>
               (set queue \<union> {x \<in> set (find_imports project c). x \<noteq> c \<and> x \<notin> V}) - insert c V)
     < card (insert c (import_targets project \<union> set queue) - V)"
proof -
  have "import_targets project \<union>
               (set queue \<union> {x \<in> set (find_imports project c). x \<noteq> c \<and> x \<notin> V}) - insert c V
     \<subset> insert c (import_targets project \<union> set queue) - V"
    using assms find_imports_targets[of project c] by auto
  then show ?thesis by (intro psubset_card_mono) (auto simp: finite_import_targets)
qed

text \<open>
  The loop \<^verbatim>\<open>while queue\<close> of \<^verbatim>\<open>build_dependency_graph\<close> (lines 187-203), on the
  variables \<^verbatim>\<open>queue\<close>, \<^verbatim>\<open>visited\<close> (here \<open>visited_set\<close>, as \<open>visited\<close> names a field of the
  sorter's state), \<^verbatim>\<open>graph\<close> and \<^verbatim>\<open>all_files\<close>; \<open>in_root\<close> is
  \<^verbatim>\<open>is_relative_to(project_root)\<close>.
\<close>

function build_loop ::
  "('a \<times> 'a list) list \<Rightarrow> ('a \<Rightarrow> bool) \<Rightarrow> 'a list \<Rightarrow> 'a set \<Rightarrow> 'a graph \<Rightarrow> 'a set
     \<Rightarrow> 'a graph \<times> 'a set"
where
  "build_loop project in_root [] visited_set graph all_files = (graph, all_files)"
| "build_loop project in_root (current_file # queue) visited_set graph all_files =
     (if current_file \<in> visited_set then build_loop project in_root queue visited_set graph all_files
      else if \<not> in_root current_file then build_loop project in_root queue visited_set graph all_files
      else
        (let dependencies = find_imports project current_file in
         build_loop project in_root
           (queue @ filter (\<lambda>dep. dep \<notin> insert current_file visited_set) dependencies)
           (insert current_file visited_set)
           (dict_set graph current_file dependencies)
           (insert current_file all_files)))"
  by pat_completeness auto
termination
proof (relation "inv_image (less_than <*lex*> less_than)
    (\<lambda>(project, in_root, queue, visited_set, graph, all_files).
       (card ((import_targets project \<union> set queue) - visited_set), length queue))",
    goal_cases)
  case 1
  show ?case by (intro wf_inv_image wf_lex_prod wf_less_than)
next
  case 2
  then show ?case by simp
next
  case 3
  then show ?case by (simp add: le_less[symmetric] build_measure_skip)
next
  case 4
  then show ?case by (simp add: build_measure_step)
qed

definition build_dependency_graph ::
  "('a \<times> 'a list) list \<Rightarrow> ('a \<Rightarrow> bool) \<Rightarrow> 'a \<Rightarrow> 'a graph \<times> 'a set" where
  "build_dependency_graph project in_root main_file_path =
     build_loop project in_root [main_file_path] {} [] {}"


definition edges_of :: "'a graph \<Rightarrow> ('a \<times> 'a) set" where
  "edges_of g = {(u, v). v \<in> set (graph_get g u)}"

definition build_inv ::
  "('a \<times> 'a list) list \<Rightarrow> ('a \<Rightarrow> bool) \<Rightarrow> 'a \<Rightarrow> 'a list \<Rightarrow> 'a set \<Rightarrow> 'a graph \<Rightarrow> 'a set \<Rightarrow> bool"
where
  "build_inv project in_root main queue V g F \<longleftrightarrow>
     set (map fst g) = V \<and> distinct (map fst g) \<and> F = V \<and>
     (\<forall>k\<in>V. in_root k \<and> graph_get g k = find_imports project k) \<and>
     (\<forall>x\<in>V \<union> set queue. (main, x) \<in> (edges_of g)\<^sup>*) \<and>
     (\<forall>k\<in>V. \<forall>v\<in>set (find_imports project k). in_root v \<longrightarrow> v \<in> V \<union> set queue) \<and>
     (g = [] \<longrightarrow> set queue \<subseteq> {main}) \<and> (g \<noteq> [] \<longrightarrow> fst (hd g) = main) \<and>
     (in_root main \<longrightarrow> main \<in> V \<union> set queue)"

lemma graph_get_append_new:
  assumes "k \<notin> set (map fst g)"
  shows "graph_get (g @ [(k, v)]) a = (if a = k then v else graph_get g a)"
proof -
  from assms have "map_of g k = None" by (simp add: map_of_eq_None_iff)
  then show ?thesis
    by (cases "map_of g a") (auto simp: graph_get_def map_add_def split: option.splits)
qed

lemma graph_get_not_key: "k \<notin> set (map fst g) \<Longrightarrow> graph_get g k = []"
proof -
  assume "k \<notin> set (map fst g)"
  then have "map_of g k = None" by (simp add: map_of_eq_None_iff)
  then show ?thesis by (simp add: graph_get_def)
qed

lemma edges_of_append_new:
  assumes "k \<notin> set (map fst g)"
  shows "edges_of g \<subseteq> edges_of (g @ [(k, v)])"
proof
  fix e assume "e \<in> edges_of g"
  then obtain a b where e: "e = (a, b)" and b: "b \<in> set (graph_get g a)"
    by (auto simp: edges_of_def)
  from b graph_get_not_key[OF assms] have "a \<noteq> k" by auto
  with b have "b \<in> set (graph_get (g @ [(k, v)]) a)"
    by (simp add: graph_get_append_new[OF assms])
  with e show "e \<in> edges_of (g @ [(k, v)])" by (simp add: edges_of_def)
qed

lemma build_inv_skip:
  assumes "build_inv project in_root main (c # queue) V g F" "c \<in> V \<or> \<not> in_root c"
  shows "build_inv project in_root main queue V g F"
proof -
  from assms(1) have a: "set (map fst g) = V" "distinct (map fst g)" "F = V"
    "\<forall>k\<in>V. in_root k \<and> graph_get g k = find_imports project k"
    "g \<noteq> [] \<longrightarrow> fst (hd g) = main"
    unfolding build_inv_def by simp_all
  from assms(1) have b: "\<forall>x\<in>V \<union> set queue. (main, x) \<in> (edges_of g)\<^sup>*"
    unfolding build_inv_def by simp
  from assms(1) have "\<forall>k\<in>V. \<forall>v\<in>set (find_imports project k). in_root v \<longrightarrow> v \<in> V \<union> set (c # queue)"
    unfolding build_inv_def by simp
  with assms(2) have c: "\<forall>k\<in>V. \<forall>v\<in>set (find_imports project k). in_root v \<longrightarrow> v \<in> V \<union> set queue"
    by auto
  from assms(1) have "g = [] \<longrightarrow> set (c # queue) \<subseteq> {main}" unfolding build_inv_def by simp
  then have d: "g = [] \<longrightarrow> set queue \<subseteq> {main}" by simp
  from assms(1) have "in_root main \<longrightarrow> main \<in> V \<union> set (c # queue)" unfolding build_inv_def by simp
  with assms(2) have e: "in_root main \<longrightarrow> main \<in> V \<union> set queue" by auto
  show ?thesis unfolding build_inv_def by (intro conjI a b c d e)
qed

lemma build_inv_step:
  assumes inv: "build_inv project in_root main (c # queue) V g F"
    and c: "c \<notin> V" "in_root c"
  shows "build_inv project in_root main
           (queue @ filter (\<lambda>dep. dep \<notin> insert c V) (find_imports project c))
           (insert c V) (dict_set g c (find_imports project c)) (insert c F)"
proof -
  let ?ds = "find_imports project c"
  let ?g = "g @ [(c, ?ds)]"
  from inv c have nk: "c \<notin> set (map fst g)" unfolding build_inv_def by simp
  then have ds: "dict_set g c ?ds = ?g" by (simp add: dict_set_def)
  have gg: "graph_get ?g a = (if a = c then ?ds else graph_get g a)" for a
    using nk by (rule graph_get_append_new)
  have mono: "(edges_of g)\<^sup>* \<subseteq> (edges_of ?g)\<^sup>*"
    using edges_of_append_new[OF nk] by (rule rtrancl_mono)
  from inv have rc: "(main, c) \<in> (edges_of g)\<^sup>*" unfolding build_inv_def by simp
  have reach: "(main, x) \<in> (edges_of ?g)\<^sup>*"
    if "x \<in> insert c V \<union> set (queue @ filter (\<lambda>dep. dep \<notin> insert c V) ?ds)" for x
  proof (cases "x \<in> V \<union> set (c # queue)")
    case True
    with inv have "(main, x) \<in> (edges_of g)\<^sup>*" unfolding build_inv_def by blast
    with mono show ?thesis by blast
  next
    case False
    with that have "x \<in> set ?ds" by auto
    then have "(c, x) \<in> edges_of ?g" by (simp add: edges_of_def gg)
    moreover from rc mono have "(main, c) \<in> (edges_of ?g)\<^sup>*" by blast
    ultimately show ?thesis by (rule rtrancl_into_rtrancl[rotated])
  qed
  have first: "fst (hd ?g) = main"
  proof (cases g)
    case Nil
    with inv have "c = main" unfolding build_inv_def by simp
    with Nil show ?thesis by simp
  next
    case (Cons a list)
    with inv show ?thesis unfolding build_inv_def by simp
  qed
  have kv: "\<forall>k\<in>insert c V. in_root k \<and> graph_get ?g k = find_imports project k"
    using inv c unfolding build_inv_def by (simp add: gg)
  have cl: "\<forall>k\<in>insert c V. \<forall>v\<in>set (find_imports project k). in_root v \<longrightarrow>
      v \<in> insert c V \<union> set (queue @ filter (\<lambda>dep. dep \<notin> insert c V) ?ds)"
    using inv unfolding build_inv_def by auto
  have base: "set (map fst ?g) = insert c V" "distinct (map fst ?g)" "insert c F = insert c V"
    using inv nk unfolding build_inv_def by auto
  have m: "in_root main \<longrightarrow>
      main \<in> insert c V \<union> set (queue @ filter (\<lambda>dep. dep \<notin> insert c V) ?ds)"
    using inv unfolding build_inv_def by auto
  have r: "\<forall>x\<in>insert c V \<union> set (queue @ filter (\<lambda>dep. dep \<notin> insert c V) ?ds).
      (main, x) \<in> (edges_of ?g)\<^sup>*"
    using reach by blast
  show ?thesis
    unfolding ds build_inv_def
    by (intro conjI base kv r cl m) (simp_all add: first)
qed

lemma build_loop_inv:
  "build_inv project in_root main queue V g F \<Longrightarrow>
   build_loop project in_root queue V g F = (g', F') \<Longrightarrow>
   \<exists>V'. build_inv project in_root main [] V' g' F'"
proof (induction project in_root queue V g F rule: build_loop.induct)
  case (1 project in_root visited_set graph all_files)
  from 1(2) have "g' = graph" "F' = all_files" by simp_all
  with 1(1) show ?case by blast
next
  case (2 project in_root current_file queue visited_set graph all_files)
  show ?case
  proof (cases "current_file \<in> visited_set")
    case True
    then have i: "build_inv project in_root main queue visited_set graph all_files"
      using build_inv_skip[OF 2(4)] by simp
    from True 2(5) have "build_loop project in_root queue visited_set graph all_files = (g', F')"
      by simp
    with i True show ?thesis using 2(1) by blast
  next
    case nv: False
    show ?thesis
    proof (cases "in_root current_file")
      case False
      then have i: "build_inv project in_root main queue visited_set graph all_files"
        using build_inv_skip[OF 2(4)] by simp
      from nv False 2(5) have "build_loop project in_root queue visited_set graph all_files = (g', F')"
        by simp
      with nv False i show ?thesis using 2(2) by blast
    next
      case True
      note i = build_inv_step[OF 2(4) nv True]
      from nv True 2(5) have
        "build_loop project in_root
           (queue @ filter (\<lambda>dep. dep \<notin> insert current_file visited_set) (find_imports project current_file))
           (insert current_file visited_set)
           (dict_set graph current_file (find_imports project current_file))
           (insert current_file all_files) = (g', F')"
        by (simp add: Let_def)
      with i show ?thesis using 2(3)[OF nv _ refl] True by blast
    qed
  qed
qed

lemma build_inv_initial: "build_inv project in_root main [main] {} [] {}"
  by (simp add: build_inv_def)

section \<open>Cycles are reported\<close>

text \<open>The position of the first occurrence of \<open>x\<close> in \<open>xs\<close>.\<close>

definition pos :: "'a list \<Rightarrow> 'a \<Rightarrow> nat" where
  "pos xs x = length (takeWhile (\<lambda>y. y \<noteq> x) xs)"

lemma precedes_pos: "precedes v u xs \<Longrightarrow> pos xs v < pos xs u"
  unfolding precedes_def pos_def
  by (induction xs) (auto split: if_splits)

text \<open>
  A cycle of the graph is a non-empty list of files in which every file depends on the next
  and the last on the first; \<open>cycle_edges\<close> are these dependency edges.
\<close>

definition cycle_edges :: "'a list \<Rightarrow> ('a \<times> 'a) list" where
  "cycle_edges cyc = zip cyc (rotate1 cyc)"

definition is_cycle :: "'a graph \<Rightarrow> 'a list \<Rightarrow> bool" where
  "is_cycle g cyc \<longleftrightarrow> cyc \<noteq> [] \<and> list_all (\<lambda>(u, v). v \<in> set (graph_get g u)) (cycle_edges cyc)"

lemma cycle_edges_successor:
  assumes "a \<in> set cyc"
  shows "\<exists>b\<in>set cyc. (a, b) \<in> set (cycle_edges cyc)"
proof -
  from assms obtain i where i: "i < length cyc" "cyc ! i = a" by (auto simp: in_set_conv_nth)
  then have "(a, rotate1 cyc ! i) \<in> set (cycle_edges cyc)"
    unfolding cycle_edges_def by (auto simp: set_zip)
  moreover from i have "rotate1 cyc ! i \<in> set (rotate1 cyc)" by (intro nth_mem) simp
  ultimately show ?thesis by auto
qed

lemma cycle_has_reported_edge:
  assumes cyc: "is_cycle g cyc"
    and ord: "\<forall>u v. v \<in> set (graph_get g u) \<longrightarrow> (u, v) \<in> set cycles \<or> precedes v u order"
  shows "\<exists>e\<in>set (cycle_edges cyc). e \<in> set cycles"
proof (rule ccontr)
  assume no: "\<not> (\<exists>e\<in>set (cycle_edges cyc). e \<in> set cycles)"
  from cyc have ne: "set cyc \<noteq> {}" by (simp add: is_cycle_def)
  let ?m = "Min (pos order ` set cyc)"
  have "?m \<in> pos order ` set cyc" using ne by (intro Min_in) simp_all
  then obtain a where a: "a \<in> set cyc" "pos order a = ?m" by auto
  from cycle_edges_successor[OF a(1)] obtain b where b: "b \<in> set cyc" "(a, b) \<in> set (cycle_edges cyc)"
    by blast
  from cyc b(2) have "b \<in> set (graph_get g a)" by (auto simp: is_cycle_def list_all_iff)
  with ord no b(2) have "precedes b a order" by blast
  then have "pos order b < pos order a" by (rule precedes_pos)
  moreover have "?m \<le> pos order b" using b(1) by (intro Min_le) simp_all
  ultimately show False using a(2) by simp
qed

text \<open>
  Claim C8. For every cycle of the input graph, \<^verbatim>\<open>topological_sort\<close> returns (it does not
  raise, given stack for one nested call per file and one more), at least one edge of the
  cycle is among the returned cycle edges, and the returned order holds every file of the
  graph exactly once.
\<close>

theorem topological_sort_reports_every_cycle:
  assumes "is_cycle g cyc" and "card (set (nodes g)) < depth"
  shows "\<exists>order cycles. topological_sort depth g = Inr (order, cycles) \<and>
           (\<exists>e\<in>set (cycle_edges cyc). e \<in> set cycles) \<and>
           distinct order \<and> set order = set (nodes g)"
proof -
  from topological_sort_correct[OF assms(2)] obtain order cycles where
    s: "topological_sort depth g = Inr (order, cycles)" and d: "distinct order"
    and c: "set order = set (nodes g)"
    and o: "\<forall>u v. v \<in> set (graph_get g u) \<longrightarrow> (u, v) \<in> set cycles \<or> precedes v u order"
    by blast
  from cycle_has_reported_edge[OF assms(1) o] s d c show ?thesis by blast
qed

theorem topological_sort_reports_every_cycle_witness:
  "is_cycle [(''A'', [''B'']), (''B'', [''A''])] [''A'', ''B''] \<and>
   card (set (nodes [(''A'', [''B'']), (''B'', [''A''])])) < 3 \<and>
   (\<exists>order cycles. topological_sort 3 [(''A'', [''B'']), (''B'', [''A''])] = Inr (order, cycles) \<and>
      (\<exists>e\<in>set (cycle_edges [''A'', ''B'']). e \<in> set cycles) \<and>
      distinct order \<and> set order = set (nodes [(''A'', [''B'']), (''B'', [''A''])]))"
proof -
  have h1: "is_cycle [(''A'', [''B'']), (''B'', [''A''])] [''A'', ''B'']"
    by (simp add: is_cycle_def cycle_edges_def graph_get_def)
  have h2: "card (set (nodes [(''A'', [''B'']), (''B'', [''A''])])) < 3"
    by code_simp
  from h1 h2 topological_sort_reports_every_cycle[OF h1 h2] show ?thesis by blast
qed

section \<open>The final bundle order\<close>

text \<open>
  \<^verbatim>\<open>run_bundling_process\<close>, lines 340-343: the entry file is taken out of the sorted list
  (\<^verbatim>\<open>list.remove\<close> takes out the first occurrence) and appended at the end.
\<close>

definition final_order :: "'a \<Rightarrow> 'a list \<Rightarrow> 'a list" where
  "final_order main_path sorted_files =
     (if main_path \<in> set sorted_files then remove1 main_path sorted_files else sorted_files)
     @ [main_path]"

lemma build_dependency_graph_inv:
  assumes "build_dependency_graph project in_root main = (g, F)"
  shows "build_inv project in_root main [] (set (map fst g)) g F"
proof -
  from build_loop_inv[OF build_inv_initial, of project in_root main g F] assms
  obtain V' where i: "build_inv project in_root main [] V' g F"
    by (auto simp: build_dependency_graph_def)
  then have "set (map fst g) = V'" by (simp add: build_inv_def)
  with i show ?thesis by simp
qed

lemma visit_fresh_back_edges:
  assumes v: "visit d g n st = Inr st'" and inv: "sort_inv g st"
    and nt: "n \<notin> set (temp_visited st)" and nv: "n \<notin> visited st"
  shows "\<forall>u\<in>visited st'. n \<in> set (graph_get g u) \<longrightarrow> (u, n) \<in> set (edges_in_cycles st')"
proof (cases d)
  case 0
  with v show ?thesis by simp
next
  case (Suc d')
  with v nt nv obtain st1 where
    s1: "visit_neighbors d' g (graph_get g n) (st\<lparr>temp_visited := temp_visited st @ [n]\<rparr>) = Inr st1"
    and s2: "st' = st1\<lparr>temp_visited := removeAll n (temp_visited st1),
                     visited := insert n (visited st1),
                     result := result st1 @ [n]\<rparr>"
    by (auto split: sum.splits if_splits)
  have i0: "sort_inv g (st\<lparr>temp_visited := temp_visited st @ [n]\<rparr>)"
    using inv nt nv by (rule sort_inv_push)
  from visit_inv(2)[OF s1 i0] have i1: "sort_inv g st1"
    and nb: "\<forall>m\<in>set (graph_get g n). settled g st1 m" by simp_all
  from visit_frame(2)[OF s1] have t: "temp_visited st1 = temp_visited st @ [n]" by simp
  with i1 have n1: "n \<notin> visited st1" unfolding sort_inv_def by auto
  have "(u, n) \<in> set (edges_in_cycles st1)" if u: "u \<in> insert n (visited st1)"
    and e: "n \<in> set (graph_get g u)" for u
  proof (cases "u = n")
    case True
    with nb e have "settled g st1 n" by blast
    with n1 t e True show ?thesis unfolding settled_def by auto
  next
    case False
    with u have "u \<in> visited st1" by simp
    with i1 e have "(u, n) \<in> set (edges_in_cycles st1) \<or> precedes n u (result st1)"
      unfolding sort_inv_def by blast
    moreover have "\<not> precedes n u (result st1)"
      using precedes_in_set[of n u "result st1"] i1 n1 unfolding sort_inv_def by auto
    ultimately show ?thesis by blast
  qed
  then show ?thesis unfolding s2 by simp
qed

lemma closed_under_reach:
  assumes "closed_under g S" "a \<in> S" "(a, x) \<in> (edges_of g)\<^sup>*"
  shows "x \<in> S"
  using assms(3,1,2)
  by (induction rule: rtrancl_induct) (auto simp: closed_under_def edges_of_def)

lemma topological_sort_first_key:
  assumes s: "topological_sort depth g = Inr (order, cycles)" and ne: "g \<noteq> []"
    and r: "\<forall>k\<in>set (map fst g). (fst (hd g), k) \<in> (edges_of g)\<^sup>*"
  shows "\<forall>u. fst (hd g) \<in> set (graph_get g u) \<longrightarrow> (u, fst (hd g)) \<in> set cycles"
proof -
  let ?m = "fst (hd g)"
  from ne obtain ks where ks: "map fst g = ?m # ks" by (cases g) auto
  from s obtain st' where l: "sort_loop depth g (?m # ks) initial_state = Inr st'"
    and c: "cycles = edges_in_cycles st'"
    unfolding topological_sort_def ks by (auto split: sum.splits)
  from l obtain st1 where v: "visit depth g ?m initial_state = Inr st1"
    and l2: "sort_loop depth g ks st1 = Inr st'"
    by (auto simp: initial_state_def split: sum.splits)
  have i1: "sort_inv g st1" and m1: "settled g st1 ?m"
    using visit_inv(1)[OF v sort_inv_initial] by simp_all
  from visit_frame(1)[OF v] have t1: "temp_visited st1 = []" by (simp add: initial_state_def)
  with m1 have mv: "?m \<in> visited st1" by (simp add: settled_def)
  from i1 t1 have cl: "closed_under g (visited st1)" unfolding sort_inv_def closed_under_def by simp
  have b: "\<forall>u\<in>visited st1. ?m \<in> set (graph_get g u) \<longrightarrow> (u, ?m) \<in> set (edges_in_cycles st1)"
    using v sort_inv_initial by (rule visit_fresh_back_edges) (simp_all add: initial_state_def)
  show ?thesis
  proof (intro allI impI)
    fix u assume e: "?m \<in> set (graph_get g u)"
    from graph_get_in_nodes[OF e] have "u \<in> set (map fst g)" by simp
    with r have "(?m, u) \<in> (edges_of g)\<^sup>*" by blast
    with cl mv have "u \<in> visited st1" by (rule closed_under_reach)
    with b e have "(u, ?m) \<in> set (edges_in_cycles st1)" by blast
    with sort_loop_frame[OF l2] c show "(u, ?m) \<in> set cycles" by (auto dest: set_mono_prefix)
  qed
qed

lemma precedes_remove1:
  "precedes v u xs \<Longrightarrow> v \<noteq> m \<Longrightarrow> u \<noteq> m \<Longrightarrow> precedes v u (remove1 m xs)"
  unfolding precedes_def
  by (induction xs) (auto split: if_splits)

lemma precedes_final_order:
  assumes p: "precedes v u order" and d: "distinct order" and vm: "v \<noteq> m"
  shows "precedes v u (final_order m order)"
proof (cases "u = m")
  case True
  from p have "v \<in> set order" "m \<in> set order" using True precedes_in_set by fast+
  with vm d have "v \<in> set (remove1 m order)" "m \<notin> set (remove1 m order)" by auto
  then have "precedes v m (remove1 m order @ [m])" by (rule precedes_snoc)
  with \<open>m \<in> set order\<close> True show ?thesis by (simp add: final_order_def)
next
  case False
  show ?thesis
  proof (cases "m \<in> set order")
    case True
    from precedes_remove1[OF p vm False] have "precedes v u (remove1 m order @ [m])"
      by (rule precedes_append)
    with True show ?thesis by (simp add: final_order_def)
  next
    case False
    from p have "precedes v u (order @ [m])" by (rule precedes_append)
    with False show ?thesis by (simp add: final_order_def)
  qed
qed

lemma insert_set_remove1: "insert m (set (remove1 m xs)) = insert m (set xs)"
  by (induction xs) auto

lemma set_final_order: "set (final_order m xs) = insert m (set xs)"
  by (simp add: final_order_def insert_set_remove1)

lemma distinct_final_order: "distinct xs \<Longrightarrow> distinct (final_order m xs)"
  by (auto simp: final_order_def)

text \<open>
  A second invariant of the traversal, about edges that lie on no cycle. The nodes in
  progress form the chain of nested calls, so each of them reaches the node being visited;
  an edge from a finished node therefore points to a node placed earlier, or to a node in
  progress, which reaches the finished node back: the edge then lies on a cycle.
\<close>

definition order_inv :: "'a graph \<Rightarrow> 'a sort_state \<Rightarrow> bool" where
  "order_inv g st \<longleftrightarrow>
     (\<forall>u\<in>visited st. \<forall>v\<in>set (graph_get g u).
        precedes v u (result st) \<or> (v, u) \<in> (edges_of g)\<^sup>*)"

lemma order_inv_pop:
  assumes inv: "sort_inv g st1" and o: "order_inv g st1" and t: "temp_visited st1 = tv @ [node]"
    and nb: "\<forall>n\<in>set (graph_get g node). settled g st1 n"
    and r: "\<forall>t\<in>set tv. (t, node) \<in> (edges_of g)\<^sup>*"
  shows "order_inv g (st1\<lparr>temp_visited := removeAll node (temp_visited st1),
                       visited := insert node (visited st1),
                       result := result st1 @ [node]\<rparr>)"
proof -
  from inv t have nr: "node \<notin> set (result st1)" unfolding sort_inv_def by auto
  have new: "precedes v node (result st1 @ [node]) \<or> (v, node) \<in> (edges_of g)\<^sup>*"
    if "v \<in> set (graph_get g node)" for v
  proof -
    from nb that have "settled g st1 v" by blast
    then show ?thesis
    proof (unfold settled_def, elim disjE conjE)
      assume "v \<in> visited st1"
      with inv have "v \<in> set (result st1)" unfolding sort_inv_def by simp
      with nr show ?thesis by (simp add: precedes_snoc)
    next
      assume "v \<in> set (temp_visited st1)"
      with t r show ?thesis by auto
    qed
  qed
  have old: "precedes v u (result st1 @ [node]) \<or> (v, u) \<in> (edges_of g)\<^sup>*"
    if "u \<in> visited st1" "v \<in> set (graph_get g u)" for u v
  proof -
    from o that have "precedes v u (result st1) \<or> (v, u) \<in> (edges_of g)\<^sup>*"
      unfolding order_inv_def by blast
    then show ?thesis using precedes_append by fast
  qed
  show ?thesis unfolding order_inv_def using new old by simp
qed

lemma visit_order_inv:
  "visit d g n st = Inr st' \<Longrightarrow> sort_inv g st \<Longrightarrow> order_inv g st \<Longrightarrow>
     \<forall>t\<in>set (temp_visited st). (t, n) \<in> (edges_of g)\<^sup>* \<Longrightarrow> order_inv g st'"
  "visit_neighbors d g ns st = Inr st' \<Longrightarrow> sort_inv g st \<Longrightarrow> order_inv g st \<Longrightarrow>
     \<forall>t\<in>set (temp_visited st). \<forall>n\<in>set ns. (t, n) \<in> (edges_of g)\<^sup>* \<Longrightarrow> order_inv g st'"
proof (induction d g n st and d g ns st arbitrary: st' and st' rule: visit_visit_neighbors.induct)
  case (1 g node st)
  then show ?case by simp
next
  case (2 depth g node st)
  show ?case
  proof (cases "node \<in> set (temp_visited st)")
    case True
    with 2(2) have s: "st' = st\<lparr>edges_in_cycles := edges_in_cycles st @
              map (\<lambda>temp_node. (temp_node, node))
                (filter (\<lambda>temp_node. node \<in> set (graph_get g temp_node)) (temp_visited st))\<rparr>"
      by auto
    show ?thesis unfolding s using 2(4) by (simp add: order_inv_def)
  next
    case nt: False
    show ?thesis
    proof (cases "node \<in> visited st")
      case True
      with nt 2(2) have "st' = st" by auto
      with 2(4) show ?thesis by simp
    next
      case nv: False
      let ?st0 = "st\<lparr>temp_visited := temp_visited st @ [node]\<rparr>"
      from 2(2) nt nv obtain st1 where
        s1: "visit_neighbors depth g (graph_get g node) ?st0 = Inr st1"
        and s2: "st' = st1\<lparr>temp_visited := removeAll node (temp_visited st1),
                       visited := insert node (visited st1),
                       result := result st1 @ [node]\<rparr>"
        by (auto split: sum.splits if_splits)
      have i0: "sort_inv g ?st0" using 2(3) nt nv by (rule sort_inv_push)
      have o0: "order_inv g ?st0" using 2(4) by (simp add: order_inv_def)
      have r0: "\<forall>t\<in>set (temp_visited ?st0). \<forall>n\<in>set (graph_get g node). (t, n) \<in> (edges_of g)\<^sup>*"
      proof (intro ballI)
        fix t n assume t: "t \<in> set (temp_visited ?st0)" and n: "n \<in> set (graph_get g node)"
        from n have e: "(node, n) \<in> edges_of g" by (simp add: edges_of_def)
        from t 2(5) have "(t, node) \<in> (edges_of g)\<^sup>*" by auto
        then show "(t, n) \<in> (edges_of g)\<^sup>*" using e by (rule rtrancl_into_rtrancl)
      qed
      from 2(1)[OF nt nv s1 i0 o0 r0] have o1: "order_inv g st1" .
      from visit_inv(2)[OF s1 i0] have i1: "sort_inv g st1"
        and nb: "\<forall>n\<in>set (graph_get g node). settled g st1 n" by simp_all
      from visit_frame(2)[OF s1] have t: "temp_visited st1 = temp_visited st @ [node]" by simp
      show ?thesis unfolding s2 using i1 o1 t nb 2(5) by (rule order_inv_pop)
    qed
  qed
next
  case (3 depth g st)
  then show ?case by simp
next
  case (4 depth g neighbor rest st)
  from 4(3) obtain st1 where s1: "visit depth g neighbor st = Inr st1"
    and s2: "visit_neighbors depth g rest st1 = Inr st'"
    by (auto split: sum.splits)
  from 4(6) have r1: "\<forall>t\<in>set (temp_visited st). (t, neighbor) \<in> (edges_of g)\<^sup>*" by simp
  from 4(1)[OF s1 4(4) 4(5) r1] have o1: "order_inv g st1" .
  from visit_inv(1)[OF s1 4(4)] have i1: "sort_inv g st1" by simp
  from visit_frame(1)[OF s1] have t1: "temp_visited st1 = temp_visited st" by simp
  from 4(6) t1 have r2: "\<forall>t\<in>set (temp_visited st1). \<forall>n\<in>set rest. (t, n) \<in> (edges_of g)\<^sup>*"
    by simp
  from 4(2)[OF s1 s2 i1 o1 r2] show ?case .
qed

lemma sort_loop_order_inv:
  "sort_loop d g ks st = Inr st' \<Longrightarrow> sort_inv g st \<Longrightarrow> order_inv g st \<Longrightarrow>
     temp_visited st = [] \<Longrightarrow> order_inv g st'"
proof (induction ks arbitrary: st)
  case Nil
  then show ?case by simp
next
  case (Cons k ks)
  show ?case
  proof (cases "k \<in> visited st")
    case True
    with Cons show ?thesis by simp
  next
    case False
    with Cons.prems(1) obtain st1 where v: "visit d g k st = Inr st1"
      and l: "sort_loop d g ks st1 = Inr st'" by (auto split: sum.splits)
    from Cons.prems(4) have r: "\<forall>t\<in>set (temp_visited st). (t, k) \<in> (edges_of g)\<^sup>*" by simp
    from visit_order_inv(1)[OF v Cons.prems(2,3) r] have o1: "order_inv g st1" .
    from visit_inv(1)[OF v Cons.prems(2)] have i1: "sort_inv g st1" by simp
    from visit_frame(1)[OF v] Cons.prems(4) have t1: "temp_visited st1 = []" by simp
    from Cons.IH[OF l i1 o1 t1] show ?thesis .
  qed
qed

lemma topological_sort_acyclic_edges:
  assumes s: "topological_sort depth g = Inr (order, cycles)"
    and e: "v \<in> set (graph_get g u)" and n: "(v, u) \<notin> (edges_of g)\<^sup>*"
  shows "precedes v u order"
proof -
  from s obtain st' where l: "sort_loop depth g (map fst g) initial_state = Inr st'"
    and r: "order = result st'"
    unfolding topological_sort_def by (auto split: sum.splits)
  have o0: "order_inv g (initial_state :: 'a sort_state)"
    by (simp add: order_inv_def initial_state_def)
  from sort_loop_order_inv[OF l sort_inv_initial o0] have o: "order_inv g st'"
    by (simp add: initial_state_def)
  from sort_loop_inv[OF l sort_inv_initial] have keys: "set (map fst g) \<subseteq> visited st'"
    by (simp_all add: initial_state_def)
  from graph_get_in_nodes[OF e] keys have "u \<in> visited st'" by blast
  with o e n r show ?thesis unfolding order_inv_def by blast
qed


text \<open>
  Claim C1. Whenever the sorter has stack for one nested call per file and one more, it
  returns an order and a list of cycle edges such that \<open>v\<close> precedes \<open>u\<close> in the final
  bundle order for every dependency edge of the built graph (\<open>u\<close> depends on \<open>v\<close>) that
  is not among the reported cycle edges, and also for every edge that lies on no cycle of
  the graph (\<open>v\<close> does not reach \<open>u\<close>), whether the sorter reported it or not. An edge
  is exempt only if it is reported and lies on a cycle. The entry file is the last element
  of the final order. The example is the graph \<open>A \<rightarrow> B\<close>, \<open>B \<rightarrow> C\<close>, \<open>C \<rightarrow> B\<close>: the
  sorter reports the edge \<open>(A, B)\<close>, which lies on no cycle, and still places \<open>B\<close> before
  \<open>A\<close>.
\<close>

theorem bundle_order_respects_dependencies:
  assumes b: "build_dependency_graph project in_root main = (g, all_files)"
    and d: "card (set (nodes g)) < depth"
  shows "\<exists>order cycles. topological_sort depth g = Inr (order, cycles) \<and>
           (\<forall>u v. v \<in> set (graph_get g u) \<and>
                  ((u, v) \<notin> set cycles \<or> (v, u) \<notin> (edges_of g)\<^sup>*) \<longrightarrow>
                  precedes v u (final_order main order)) \<and>
           last (final_order main order) = main"
proof -
  from topological_sort_correct[OF d] obtain order cycles where
    s: "topological_sort depth g = Inr (order, cycles)" and dist: "distinct order"
    and o: "\<forall>u v. v \<in> set (graph_get g u) \<longrightarrow> (u, v) \<in> set cycles \<or> precedes v u order"
    by blast
  note inv = build_dependency_graph_inv[OF b]
  have "precedes v u (final_order main order)"
    if e: "v \<in> set (graph_get g u)"
      and n: "(u, v) \<notin> set cycles \<or> (v, u) \<notin> (edges_of g)\<^sup>*" for u v
  proof -
    from e have ne: "g \<noteq> []" by (auto simp: graph_get_def)
    with inv have m: "fst (hd g) = main" unfolding build_inv_def by simp
    from inv have reach: "\<forall>k\<in>set (map fst g). (main, k) \<in> (edges_of g)\<^sup>*"
      unfolding build_inv_def by simp
    with m have "\<forall>k\<in>set (map fst g). (fst (hd g), k) \<in> (edges_of g)\<^sup>*" by simp
    from topological_sort_first_key[OF s ne this] m
    have into_main: "\<forall>w. main \<in> set (graph_get g w) \<longrightarrow> (w, main) \<in> set cycles" by simp
    from graph_get_in_nodes[OF e] have "u \<in> set (map fst g)" by simp
    with reach have mu: "(main, u) \<in> (edges_of g)\<^sup>*" by blast
    from n show ?thesis
    proof
      assume nr: "(u, v) \<notin> set cycles"
      with e into_main have vm: "v \<noteq> main" by blast
      from o e nr have "precedes v u order" by blast
      then show ?thesis using dist vm by (rule precedes_final_order)
    next
      assume nc: "(v, u) \<notin> (edges_of g)\<^sup>*"
      with mu have vm: "v \<noteq> main" by blast
      from s e nc have "precedes v u order" by (rule topological_sort_acyclic_edges)
      then show ?thesis using dist vm by (rule precedes_final_order)
    qed
  qed
  moreover have "last (final_order main order) = main" by (simp add: final_order_def)
  ultimately show ?thesis using s by blast
qed

theorem bundle_order_respects_dependencies_witness:
  "build_dependency_graph [(''A'', [''B'']), (''B'', [''C'']), (''C'', [''B''])] (\<lambda>f. True) ''A''
     = ([(''A'', [''B'']), (''B'', [''C'']), (''C'', [''B''])], {''A'', ''B'', ''C''}) \<and>
   card (set (nodes [(''A'', [''B'']), (''B'', [''C'']), (''C'', [''B''])])) < 4 \<and>
   topological_sort 4 [(''A'', [''B'']), (''B'', [''C'']), (''C'', [''B''])]
     = Inr ([''C'', ''B'', ''A''], [(''A'', ''B''), (''C'', ''B'')]) \<and>
   (''B'', ''A'') \<notin> (edges_of [(''A'', [''B'']), (''B'', [''C'']), (''C'', [''B''])])\<^sup>* \<and>
   precedes ''B'' ''A'' (final_order ''A'' [''C'', ''B'', ''A'']) \<and>
   last (final_order ''A'' [''C'', ''B'', ''A'']) = ''A''"
proof -
  let ?g = "[(''A'', [''B'']), (''B'', [''C'']), (''C'', [''B''])]"
  have h1: "build_dependency_graph ?g (\<lambda>f. True) ''A'' = (?g, {''A'', ''B'', ''C''})"
    by code_simp
  have h2: "card (set (nodes ?g)) < 4" by code_simp
  have h3: "topological_sort 4 ?g = Inr ([''C'', ''B'', ''A''], [(''A'', ''B''), (''C'', ''B'')])"
    by code_simp
  have c: "closed_under ?g {''B'', ''C''}" by (simp add: closed_under_def graph_get_def)
  have h4: "(''B'', ''A'') \<notin> (edges_of ?g)\<^sup>*"
  proof
    assume r: "(''B'', ''A'') \<in> (edges_of ?g)\<^sup>*"
    have m: "''B'' \<in> {''B'', ''C''}" by simp
    from c m r have "''A'' \<in> {''B'', ''C''}" by (rule closed_under_reach)
    then show False by simp
  qed
  have e: "''B'' \<in> set (graph_get ?g ''A'')" by (simp add: graph_get_def)
  from bundle_order_respects_dependencies[OF h1 h2] obtain order cycles where
    s: "topological_sort 4 ?g = Inr (order, cycles)"
    and a: "\<forall>u v. v \<in> set (graph_get ?g u) \<and>
           ((u, v) \<notin> set cycles \<or> (v, u) \<notin> (edges_of ?g)\<^sup>*) \<longrightarrow>
           precedes v u (final_order ''A'' order)"
    and l: "last (final_order ''A'' order) = ''A''" by blast
  from s h3 have o: "order = [''C'', ''B'', ''A'']" by simp
  from a e h4 have "precedes ''B'' ''A'' (final_order ''A'' order)" by blast
  with l have p: "precedes ''B'' ''A'' (final_order ''A'' [''C'', ''B'', ''A''])"
    "last (final_order ''A'' [''C'', ''B'', ''A'']) = ''A''" unfolding o by simp_all
  from h1 h2 h3 h4 p show ?thesis by (intro conjI)
qed

text \<open>
  Claim C3. For every project, cyclic or not, the traversal that builds the graph is a
  total function (its termination is proved with its definition), every discovered file is
  a key of the graph exactly once, and the sorter returns with a recursion depth of at most
  the number of files plus one; every discovered file occurs exactly once in the sorted
  order and in the final order.
\<close>

theorem every_discovered_file_exactly_once:
  assumes b: "build_dependency_graph project in_root main = (g, all_files)"
    and d: "card (set (nodes g)) < depth"
  shows "\<exists>order cycles. topological_sort depth g = Inr (order, cycles) \<and>
           distinct (map fst g) \<and> set (map fst g) = all_files \<and>
           distinct order \<and> all_files \<subseteq> set order \<and>
           distinct (final_order main order) \<and> all_files \<subseteq> set (final_order main order)"
proof -
  from topological_sort_correct[OF d] obtain order cycles where
    s: "topological_sort depth g = Inr (order, cycles)" and dist: "distinct order"
    and c: "set order = set (nodes g)"
    by blast
  from build_dependency_graph_inv[OF b] have k: "distinct (map fst g)" "set (map fst g) = all_files"
    unfolding build_inv_def by simp_all
  from k(2) c have sub: "all_files \<subseteq> set order" by (auto simp: nodes_def)
  then have "all_files \<subseteq> set (final_order main order)" by (auto simp: set_final_order)
  with s k dist sub distinct_final_order[OF dist] show ?thesis by blast
qed

theorem every_discovered_file_exactly_once_witness:
  "build_dependency_graph [(''A'', [''B'']), (''B'', [''A''])] (\<lambda>f. True) ''A''
     = ([(''A'', [''B'']), (''B'', [''A''])], {''A'', ''B''}) \<and>
   card (set (nodes [(''A'', [''B'']), (''B'', [''A''])])) < 3 \<and>
   (\<exists>order cycles. topological_sort 3 [(''A'', [''B'']), (''B'', [''A''])] = Inr (order, cycles) \<and>
      distinct (map fst [(''A'', [''B'']), (''B'', [''A''])]) \<and>
      set (map fst [(''A'', [''B'']), (''B'', [''A''])]) = {''A'', ''B''} \<and>
      distinct order \<and> {''A'', ''B''} \<subseteq> set order \<and>
      distinct (final_order ''A'' order) \<and> {''A'', ''B''} \<subseteq> set (final_order ''A'' order))"
proof -
  have h1: "build_dependency_graph [(''A'', [''B'']), (''B'', [''A''])] (\<lambda>f. True) ''A''
     = ([(''A'', [''B'']), (''B'', [''A''])], {''A'', ''B''})"
    by code_simp
  have h2: "card (set (nodes [(''A'', [''B'']), (''B'', [''A''])])) < 3" by code_simp
  from h1 h2 every_discovered_file_exactly_once[OF h1 h2] show ?thesis by blast
qed

text \<open>
  The diamond of the specification: \<open>A\<close> depends on \<open>B\<close> and \<open>C\<close>, which both depend on
  \<open>D\<close>. \<open>D\<close> is placed once, before \<open>B\<close> and \<open>C\<close>, and \<open>A\<close> is last.
\<close>

lemma diamond_is_ordered_once:
  "build_dependency_graph [(''A'', [''B'', ''C'']), (''B'', [''D'']), (''C'', [''D''])]
       (\<lambda>f. True) ''A''
     = ([(''A'', [''B'', ''C'']), (''B'', [''D'']), (''C'', [''D'']), (''D'', [])],
        {''A'', ''B'', ''C'', ''D''})"
  "topological_sort 5 [(''A'', [''B'', ''C'']), (''B'', [''D'']), (''C'', [''D'']), (''D'', [])]
     = Inr ([''D'', ''B'', ''C'', ''A''], [])"
  by code_simp+

section \<open>Paths and module resolution\<close>

text \<open>
  The code computes with \<^verbatim>\<open>pathlib.Path\<close>. All its paths are absolute (the entry path and
  every dependency are results of \<^verbatim>\<open>resolve()\<close>), so a path is the list of its components
  below the filesystem root, and \<open>[]\<close> is the root \<^verbatim>\<open>/\<close> itself. The operations are the
  lexical ones of \<^verbatim>\<open>PurePosixPath\<close>:
  \<^item> \<^verbatim>\<open>p.parent\<close> drops the last component, and the root is its own parent;
  \<^item> \<^verbatim>\<open>p / Path(*parts)\<close> appends the parts, an empty part contributing nothing
    (\<^verbatim>\<open>Path('')\<close> is \<^verbatim>\<open>.\<close>); the parts here are the segments of a dotted module name,
    which contain no separator;
  \<^item> \<^verbatim>\<open>p.with_suffix('.py')\<close> raises \<^verbatim>\<open>ValueError\<close> on a path with an empty name (the
    root), and otherwise replaces the suffix of the last component, where the suffix starts
    at the last dot unless that dot is the first or the last character;
  \<^item> \<^verbatim>\<open>is_relative_to\<close> and \<^verbatim>\<open>relative_to\<close> compare components, and \<^verbatim>\<open>relative_to\<close>
    raises \<^verbatim>\<open>ValueError\<close> when the other path is not a prefix.
\<close>

type_synonym path = "string list"

definition parent :: "path \<Rightarrow> path" where
  "parent p = butlast p"

definition joinpath :: "path \<Rightarrow> string list \<Rightarrow> path" where
  "joinpath p parts = p @ filter (\<lambda>s. s \<noteq> []) parts"

text \<open>\<^verbatim>\<open>module_name.split('.')\<close>: never empty, \<^verbatim>\<open>''.split('.')\<close> is \<^verbatim>\<open>['']\<close>.\<close>

fun split_dot :: "string \<Rightarrow> string list" where
  "split_dot [] = [[]]"
| "split_dot (c # cs) =
     (if c = CHR ''.'' then [] # split_dot cs
      else (case split_dot cs of w # ws \<Rightarrow> (c # w) # ws | [] \<Rightarrow> [[c]]))"

definition rfind_dot :: "string \<Rightarrow> nat option" where
  "rfind_dot name =
     (if CHR ''.'' \<in> set name
      then Some (length name - 1 - length (takeWhile (\<lambda>c. c \<noteq> CHR ''.'') (rev name)))
      else None)"

definition suffix_of :: "string \<Rightarrow> string" where
  "suffix_of name =
     (case rfind_dot name of
        None \<Rightarrow> []
      | Some i \<Rightarrow> if 0 < i \<and> i < length name - 1 then drop i name else [])"

definition with_suffix :: "path \<Rightarrow> string \<Rightarrow> error + path" where
  "with_suffix p new_suffix =
     (if p = [] then Inl ValueError
      else
        (let name = last p; old_suffix = suffix_of name in
         if old_suffix = [] then Inr (butlast p @ [name @ new_suffix])
         else Inr (butlast p @ [take (length name - length old_suffix) name @ new_suffix])))"

definition is_relative_to :: "path \<Rightarrow> path \<Rightarrow> bool" where
  "is_relative_to p other = prefix other p"

definition relative_to :: "path \<Rightarrow> path \<Rightarrow> error + path" where
  "relative_to p other = (if prefix other p then Inr (drop (length other) p) else Inl ValueError)"

text \<open>
  \<^verbatim>\<open>s.split(sep)\<close> for a separator of one character, and the absolute path that a string
  denotes: \<^verbatim>\<open>Path(s)\<close> drops empty components and components \<^verbatim>\<open>.\<close>, and a string that
  does not start with the separator is taken from the current directory. Components \<^verbatim>\<open>..\<close>
  stay; making the path canonical is the work of \<^verbatim>\<open>resolve()\<close>.
\<close>

fun split_on :: "char \<Rightarrow> string \<Rightarrow> string list" where
  "split_on sep [] = [[]]"
| "split_on sep (c # cs) =
     (if c = sep then [] # split_on sep cs
      else (case split_on sep cs of w # ws \<Rightarrow> (c # w) # ws | [] \<Rightarrow> [[c]]))"

definition path_of_string :: "path \<Rightarrow> string \<Rightarrow> path" where
  "path_of_string current_dir s =
     (let parts = filter (\<lambda>c. c \<noteq> [] \<and> c \<noteq> ''.'') (split_on (CHR ''/'') s)
      in if s \<noteq> [] \<and> hd s = CHR ''/'' then parts else current_dir @ parts)"

text \<open>
  What \<^verbatim>\<open>importlib.util.find_spec(module_name)\<close> tells \<^verbatim>\<open>_resolve_module\<close> (lines 60-78): it
  raised (any exception is swallowed), it found nothing or a spec without origin, the origin is
  \<^verbatim>\<open>'built-in'\<close> or \<^verbatim>\<open>'frozen'\<close>, or the origin is a file, given by its resolved path.
\<close>

datatype spec = SpecRaises | NoSpec | OriginBuiltin | OriginFrozen | OriginPath path

text \<open>
  The import statements that \<^verbatim>\<open>ImportAnalyzer\<close> visits in a syntax tree, in visiting order:
  \<^verbatim>\<open>import a, b\<close> with its names, and \<^verbatim>\<open>from m import x\<close> with \<^verbatim>\<open>node.module\<close> (absent in
  \<^verbatim>\<open>from . import x\<close>) and \<^verbatim>\<open>node.level\<close>. A source file either fails to parse or gives
  such a list; reading a file for the bundle gives its text or fails.
\<close>

datatype import_stmt = Import "string list" | ImportFrom "string option" nat

datatype parsed = SyntaxError | Parsed "import_stmt list"

datatype read_result = Content string | FileNotFoundError | ReadFailure string

text \<open>
  The world outside the program:
  \<^item> which paths are regular files (\<^verbatim>\<open>is_file()\<close>), directories (\<^verbatim>\<open>is_dir()\<close>) or
    exist at all (\<^verbatim>\<open>exists()\<close>), and the canonical path of a path (\<^verbatim>\<open>resolve()\<close>, which
    follows symbolic links);
  \<^item> the runtime's module search and its \<^verbatim>\<open>sys.builtin_module_names\<close>;
  \<^item> the source files that can be opened, with what parsing them gives (a path that is not
    listed cannot be opened);
  \<^item> the hash of each path in this run: Python iterates over a set in the order of the
    hashes of its elements, and the hash of a string changes from one interpreter process to
    the next;
  \<^item> the text that reading a file gives, whether a path can be created and opened for
    writing, and the text of the \<^verbatim>\<open>ValueError\<close> that \<^verbatim>\<open>relative_to\<close> raises for a path;
  \<^item> the current directory of the process, and the paths at which following symbolic
    links never ends (a link to itself, say).
\<close>

record env =
  fs_is_file :: "path \<Rightarrow> bool"
  fs_is_dir :: "path \<Rightarrow> bool"
  fs_exists :: "path \<Rightarrow> bool"
  fs_resolve :: "path \<Rightarrow> path"
  find_spec :: "string \<Rightarrow> spec"
  builtin_module_names :: "string list"
  sources :: "(path \<times> parsed) list"
  hash_key :: "path \<Rightarrow> nat"
  read_text :: "path \<Rightarrow> read_result"
  can_write :: "path \<Rightarrow> bool"
  value_error_text :: "path \<Rightarrow> string"
  cwd :: path
  symlink_loop :: "path \<Rightarrow> bool"

text \<open>
  \<^verbatim>\<open>Path(s).resolve()\<close> on a string, as \<^verbatim>\<open>run_bundling_process\<close> calls it on its two
  arguments (CPython 3.11, \<^verbatim>\<open>pathlib.Path.resolve\<close> with \<^verbatim>\<open>strict=False\<close>): the call
  \<^verbatim>\<open>os.path.realpath\<close> raises \<^verbatim>\<open>ValueError\<close> (embedded null byte) for a string with a null
  character; the \<^verbatim>\<open>stat()\<close> that follows turns a loop of symbolic links into a
  \<^verbatim>\<open>RuntimeError\<close>; any other path, existing or not, gives its canonical path.
\<close>

definition Path_resolve :: "env \<Rightarrow> string \<Rightarrow> error + path" where
  "Path_resolve env s =
     (if CHR 0x00 \<in> set s then Inl ValueError
      else (let p = path_of_string (cwd env) s in
            if symlink_loop env p then Inl RuntimeError else Inr (fs_resolve env p)))"

text \<open>
  \<^verbatim>\<open>_resolve_module\<close>, step 1 (lines 60-78): the module is a built-in, a frozen one, or one
  whose file lies outside the project root.
\<close>

definition external_module :: "env \<Rightarrow> path \<Rightarrow> string \<Rightarrow> bool" where
  "external_module env project_root module_name =
     (case find_spec env module_name of
        OriginBuiltin \<Rightarrow> True
      | OriginFrozen \<Rightarrow> True
      | OriginPath origin_path \<Rightarrow> \<not> is_relative_to origin_path project_root
      | _ \<Rightarrow> False)"

text \<open>
  Lines 105-114, and again lines 118-125 for the retry against the project root: the module
  file and the package file of a path. \<^verbatim>\<open>with_suffix\<close> is evaluated first and may raise;
  the log line of a hit formats \<^verbatim>\<open>final_path.relative_to(self.project_root)\<close>, which
  raises \<^verbatim>\<open>ValueError\<close> when the resolved path has left the project root.
\<close>

definition try_candidates :: "env \<Rightarrow> path \<Rightarrow> path \<Rightarrow> error + path option" where
  "try_candidates env project_root path_to_try =
     (case with_suffix path_to_try ''.py'' of
        Inl e \<Rightarrow> Inl e
      | Inr possible_module_path \<Rightarrow>
          (let possible_package_path = path_to_try @ [''__init__.py''] in
           if fs_is_file env possible_module_path
              \<and> is_relative_to possible_module_path project_root then
             (let final_path = fs_resolve env possible_module_path in
              case relative_to final_path project_root of
                Inl e \<Rightarrow> Inl e
              | Inr rel \<Rightarrow> Inr (Some final_path))
           else if fs_is_file env possible_package_path
              \<and> is_relative_to possible_package_path project_root then
             (let final_path = fs_resolve env possible_package_path in
              case relative_to final_path project_root of
                Inl e \<Rightarrow> Inl e
              | Inr rel \<Rightarrow> Inr (Some final_path))
           else Inr None))"

text \<open>
  \<^verbatim>\<open>ImportAnalyzer._resolve_module\<close> (lines 53-130). \<open>Inr None\<close> is "not a local file",
  \<open>Inr (Some p)\<close> a local dependency, \<open>Inl e\<close> an exception leaving the method.
\<close>

definition resolve_module :: "env \<Rightarrow> path \<Rightarrow> path \<Rightarrow> string \<Rightarrow> nat \<Rightarrow> error + path option" where
  "resolve_module env file_path project_root module_name level =
     (if external_module env project_root module_name then Inr None
      else
        (let base_dir = (parent ^^ (level - 1)) (parent file_path);
             parts = split_dot module_name;
             path_to_try =
               (if level = 0 \<and> module_name \<noteq> [] then joinpath project_root parts
                else if level > 0 \<and> module_name \<noteq> [] then joinpath base_dir parts
                else if level > 0 \<and> module_name = [] then base_dir
                else joinpath project_root parts)
         in case try_candidates env project_root path_to_try of
              Inl e \<Rightarrow> Inl e
            | Inr (Some final_path) \<Rightarrow> Inr (Some final_path)
            | Inr None \<Rightarrow> try_candidates env project_root (joinpath project_root parts)))"

text \<open>
  \<^verbatim>\<open>local_dependencies.add(p)\<close>, and the two visitor methods (lines 133-149). An exception
  of \<^verbatim>\<open>_resolve_module\<close> leaves the visitor.
\<close>

definition set_add :: "'a \<Rightarrow> 'a list \<Rightarrow> 'a list" where
  "set_add x xs = (if x \<in> set xs then xs else xs @ [x])"

fun visit_Import :: "env \<Rightarrow> path \<Rightarrow> path \<Rightarrow> string list \<Rightarrow> path list \<Rightarrow> error + path list" where
  "visit_Import env file_path project_root [] local_dependencies = Inr local_dependencies"
| "visit_Import env file_path project_root (name # names) local_dependencies =
     (case resolve_module env file_path project_root name 0 of
        Inl e \<Rightarrow> Inl e
      | Inr None \<Rightarrow> visit_Import env file_path project_root names local_dependencies
      | Inr (Some resolved_path) \<Rightarrow>
          visit_Import env file_path project_root names
            (set_add resolved_path local_dependencies))"

definition visit_ImportFrom ::
  "env \<Rightarrow> path \<Rightarrow> path \<Rightarrow> string option \<Rightarrow> nat \<Rightarrow> path list \<Rightarrow> error + path list" where
  "visit_ImportFrom env file_path project_root module level local_dependencies =
     (case resolve_module env file_path project_root
             (case module of None \<Rightarrow> [] | Some m \<Rightarrow> m) level of
        Inl e \<Rightarrow> Inl e
      | Inr None \<Rightarrow> Inr local_dependencies
      | Inr (Some resolved_path) \<Rightarrow> Inr (set_add resolved_path local_dependencies))"

fun visit_stmts :: "env \<Rightarrow> path \<Rightarrow> path \<Rightarrow> import_stmt list \<Rightarrow> path list \<Rightarrow> error + path list" where
  "visit_stmts env file_path project_root [] local_dependencies = Inr local_dependencies"
| "visit_stmts env file_path project_root (stmt # stmts) local_dependencies =
     (case (case stmt of
              Import names \<Rightarrow> visit_Import env file_path project_root names local_dependencies
            | ImportFrom module level \<Rightarrow>
                visit_ImportFrom env file_path project_root module level local_dependencies) of
        Inl e \<Rightarrow> Inl e
      | Inr deps \<Rightarrow> visit_stmts env file_path project_root stmts deps)"

text \<open>
  \<^verbatim>\<open>ImportAnalyzer.find_imports\<close> (lines 151-169): every failure (the file cannot be opened
  or parsed, the constructor's \<^verbatim>\<open>file_path.relative_to(project_root)\<close> or a visitor raises)
  gives the empty set. The result is listed in the order in which this run iterates over the
  set, which is the order of the hashes.
\<close>

definition ImportAnalyzer_find_imports :: "env \<Rightarrow> path \<Rightarrow> path \<Rightarrow> path list" where
  "ImportAnalyzer_find_imports env project_root file_path =
     (case map_of (sources env) file_path of
        None \<Rightarrow> []
      | Some SyntaxError \<Rightarrow> []
      | Some (Parsed stmts) \<Rightarrow>
          (case relative_to file_path project_root of
             Inl e \<Rightarrow> []
           | Inr rel \<Rightarrow>
               (case visit_stmts env file_path project_root stmts [] of
                  Inl e \<Rightarrow> []
                | Inr local_dependencies \<Rightarrow> sort_key (hash_key env) local_dependencies)))"

text \<open>The table of the dependency sets of all source files, as the traversal sees them.\<close>

definition project_table :: "env \<Rightarrow> path \<Rightarrow> (path \<times> path list) list" where
  "project_table env project_root =
     map (\<lambda>(file_path, src). (file_path, ImportAnalyzer_find_imports env project_root file_path))
       (sources env)"

subsection \<open>Every resolved dependency lies under the project root\<close>

lemma try_candidates_under_root:
  assumes "try_candidates env project_root path_to_try = Inr (Some p)"
  shows "is_relative_to p project_root"
  using assms unfolding try_candidates_def Let_def is_relative_to_def relative_to_def
  by (auto split: sum.splits if_splits)

lemma resolve_module_under_root:
  assumes "resolve_module env file_path project_root module_name level = Inr (Some p)"
  shows "is_relative_to p project_root"
proof -
  from assms obtain q where "try_candidates env project_root q = Inr (Some p)"
    unfolding resolve_module_def Let_def
    by (auto split: if_splits sum.splits option.splits)
  then show ?thesis by (rule try_candidates_under_root)
qed

lemma set_set_add: "set (set_add x xs) = insert x (set xs)"
  by (auto simp: set_add_def)

lemma visit_Import_under_root:
  assumes "visit_Import env file_path project_root names deps = Inr deps'"
    and "\<forall>d\<in>set deps. is_relative_to d project_root"
  shows "\<forall>d\<in>set deps'. is_relative_to d project_root"
  using assms
proof (induction names arbitrary: deps)
  case Nil
  then show ?case by simp
next
  case (Cons name names)
  show ?case
  proof (cases "resolve_module env file_path project_root name 0")
    case (Inl e)
    with Cons.prems show ?thesis by simp
  next
    case (Inr r)
    show ?thesis
    proof (cases r)
      case None
      with Inr Cons.prems Cons.IH[of deps] show ?thesis by simp
    next
      case (Some p)
      with Inr have "is_relative_to p project_root" by (simp add: resolve_module_under_root)
      with Cons.prems(2) have "\<forall>d\<in>set (set_add p deps). is_relative_to d project_root"
        by (simp add: set_set_add)
      with Inr Some Cons.prems(1) Cons.IH[of "set_add p deps"] show ?thesis by simp
    qed
  qed
qed

lemma visit_ImportFrom_under_root:
  assumes "visit_ImportFrom env file_path project_root module level deps = Inr deps'"
    and "\<forall>d\<in>set deps. is_relative_to d project_root"
  shows "\<forall>d\<in>set deps'. is_relative_to d project_root"
  using assms unfolding visit_ImportFrom_def
  by (auto simp: set_set_add split: sum.splits option.splits dest: resolve_module_under_root)

lemma visit_stmts_under_root:
  assumes "visit_stmts env file_path project_root stmts deps = Inr deps'"
    and "\<forall>d\<in>set deps. is_relative_to d project_root"
  shows "\<forall>d\<in>set deps'. is_relative_to d project_root"
  using assms
proof (induction stmts arbitrary: deps)
  case Nil
  then show ?case by simp
next
  case (Cons stmt stmts)
  from Cons.prems(1) obtain deps1 where
    s: "(case stmt of
              Import names \<Rightarrow> visit_Import env file_path project_root names deps
            | ImportFrom module level \<Rightarrow>
                visit_ImportFrom env file_path project_root module level deps) = Inr deps1"
    and r: "visit_stmts env file_path project_root stmts deps1 = Inr deps'"
    by (auto split: sum.splits)
  from s Cons.prems(2) have "\<forall>d\<in>set deps1. is_relative_to d project_root"
    by (cases stmt) (auto dest: visit_Import_under_root visit_ImportFrom_under_root)
  with r show ?case by (rule Cons.IH)
qed

lemma find_imports_under_root:
  "\<forall>d\<in>set (ImportAnalyzer_find_imports env project_root file_path). is_relative_to d project_root"
proof (cases "map_of (sources env) file_path")
  case None
  then show ?thesis by (simp add: ImportAnalyzer_find_imports_def)
next
  case (Some src)
  show ?thesis
  proof (cases src)
    case SyntaxError
    with Some show ?thesis by (simp add: ImportAnalyzer_find_imports_def)
  next
    case (Parsed stmts)
    show ?thesis
    proof (cases "visit_stmts env file_path project_root stmts []")
      case (Inl e)
      with Some Parsed show ?thesis
        by (simp add: ImportAnalyzer_find_imports_def split: sum.splits)
    next
      case (Inr deps)
      then have "\<forall>d\<in>set deps. is_relative_to d project_root"
        by (rule visit_stmts_under_root) simp
      with Some Parsed Inr show ?thesis
        by (simp add: ImportAnalyzer_find_imports_def split: sum.splits)
    qed
  qed
qed

lemma map_of_map_key:
  "map_of (map (\<lambda>(k, v). (k, h k)) xs) k = map_option (\<lambda>v. h k) (map_of xs k)"
  by (induction xs) auto

lemma find_imports_project_table:
  "find_imports (project_table env project_root) file_path
     = ImportAnalyzer_find_imports env project_root file_path"
proof -
  have "map_of (project_table env project_root) file_path
      = map_option (\<lambda>v. ImportAnalyzer_find_imports env project_root file_path)
          (map_of (sources env) file_path)"
    unfolding project_table_def by (rule map_of_map_key)
  then show ?thesis
    by (cases "map_of (sources env) file_path")
       (simp_all add: find_imports_def ImportAnalyzer_find_imports_def)
qed

lemma graph_get_of_member:
  assumes "distinct (map fst g)" "(k, ds) \<in> set g"
  shows "graph_get g k = ds"
  using assms by (simp add: graph_get_def)

lemma build_invD:
  assumes "build_inv project in_root main queue V g F"
  shows "set (map fst g) = V" and "distinct (map fst g)" and "F = V"
    and "\<forall>k\<in>V. in_root k \<and> graph_get g k = find_imports project k"
    and "\<forall>x\<in>V \<union> set queue. (main, x) \<in> (edges_of g)\<^sup>*"
    and "\<forall>k\<in>V. \<forall>v\<in>set (find_imports project k). in_root v \<longrightarrow> v \<in> V \<union> set queue"
    and "g \<noteq> [] \<longrightarrow> fst (hd g) = main"
    and "in_root main \<longrightarrow> main \<in> V \<union> set queue"
proof -
  note a = assms[unfolded build_inv_def]
  from a show "set (map fst g) = V" by (elim conjE)
  from a show "distinct (map fst g)" by (elim conjE)
  from a show "F = V" by (elim conjE)
  from a show "\<forall>k\<in>V. in_root k \<and> graph_get g k = find_imports project k" by (elim conjE)
  from a show "\<forall>x\<in>V \<union> set queue. (main, x) \<in> (edges_of g)\<^sup>*" by (elim conjE)
  from a show "\<forall>k\<in>V. \<forall>v\<in>set (find_imports project k). in_root v \<longrightarrow> v \<in> V \<union> set queue"
    by (elim conjE)
  from a show "g \<noteq> [] \<longrightarrow> fst (hd g) = main" by (elim conjE)
  from a show "in_root main \<longrightarrow> main \<in> V \<union> set queue" by (elim conjE)
qed

lemma built_graph_facts:
  assumes "build_dependency_graph project in_root main = (g, F)"
  shows "distinct (map fst g)" and "set (map fst g) = F"
    and "\<And>k. k \<in> set (map fst g) \<Longrightarrow> in_root k"
    and "\<And>k. k \<in> set (map fst g) \<Longrightarrow> graph_get g k = find_imports project k"
    and "\<And>k. k \<in> set (map fst g) \<Longrightarrow> (main, k) \<in> (edges_of g)\<^sup>*"
    and "\<And>k v. k \<in> set (map fst g) \<Longrightarrow> v \<in> set (find_imports project k) \<Longrightarrow> in_root v
           \<Longrightarrow> v \<in> set (map fst g)"
    and "g \<noteq> [] \<Longrightarrow> fst (hd g) = main"
    and "in_root main \<Longrightarrow> main \<in> set (map fst g)"
proof -
  note inv = build_invD[OF build_dependency_graph_inv[OF assms]]
  show "distinct (map fst g)" by (rule inv(2))
  show "set (map fst g) = F" using inv(3) by simp
  show "in_root k" if "k \<in> set (map fst g)" for k using bspec[OF inv(4) that] by simp
  show "graph_get g k = find_imports project k" if "k \<in> set (map fst g)" for k
    using bspec[OF inv(4) that] by simp
  show "(main, k) \<in> (edges_of g)\<^sup>*" if "k \<in> set (map fst g)" for k
    using bspec[OF inv(5), of k] that by simp
  show "v \<in> set (map fst g)"
    if "k \<in> set (map fst g)" "v \<in> set (find_imports project k)" "in_root v" for k v
    using bspec[OF bspec[OF inv(6) that(1)] that(2)] that(3) by simp
  show "fst (hd g) = main" if "g \<noteq> []" using inv(7) that by (rule mp)
  show "main \<in> set (map fst g)" if "in_root main" using inv(8) that by simp
qed

text \<open>
  Claim C4. Every key of the built graph and every path in every value set lies under the
  project root, and no import specifier is ever resolved to a path outside the project root
  (such a specifier gives no node and no edge).
\<close>

theorem built_graph_lies_under_project_root:
  assumes "build_dependency_graph (project_table env project_root)
             (\<lambda>p. is_relative_to p project_root) main_file_path = (g, all_files)"
  shows "(\<forall>(k, ds)\<in>set g. is_relative_to k project_root \<and>
            (\<forall>d\<in>set ds. is_relative_to d project_root)) \<and>
         (\<forall>file_path module_name level p.
            resolve_module env file_path project_root module_name level = Inr (Some p) \<longrightarrow>
            is_relative_to p project_root)"
proof -
  note f = built_graph_facts[OF assms]
  have "is_relative_to k project_root \<and> (\<forall>d\<in>set ds. is_relative_to d project_root)"
    if m: "(k, ds) \<in> set g" for k ds
  proof -
    from m have k: "k \<in> set (map fst g)" by force
    from f(4)[OF k] graph_get_of_member[OF f(1) m]
    have "ds = ImportAnalyzer_find_imports env project_root k"
      by (simp add: find_imports_project_table)
    with f(3)[OF k] find_imports_under_root[of env project_root k] show ?thesis by simp
  qed
  then show ?thesis using resolve_module_under_root by blast
qed

subsection \<open>A concrete project\<close>

text \<open>
  The project of the specification's scenario: \<^verbatim>\<open>app.py\<close> imports \<^verbatim>\<open>os\<close>, the local module
  \<^verbatim>\<open>utils\<close> and the package \<^verbatim>\<open>pkg\<close>, whose \<^verbatim>\<open>__init__.py\<close> imports its sibling
  \<^verbatim>\<open>helpers\<close>; \<^verbatim>\<open>helpers.py\<close> contains \<^verbatim>\<open>from .....utils import x\<close>, a relative import
  five levels up.
\<close>

definition example_env :: env where
  "example_env = \<lparr>
     fs_is_file = (\<lambda>p. p \<in> set [[''proj'', ''app.py''], [''proj'', ''utils.py''],
                                  [''proj'', ''pkg'', ''__init__.py''],
                                  [''proj'', ''pkg'', ''helpers.py'']]),
     fs_is_dir = (\<lambda>p. p \<in> set [[], [''proj''], [''proj'', ''pkg'']]),
     fs_exists = (\<lambda>p. p \<in> set [[], [''proj''], [''proj'', ''pkg''],
                                 [''proj'', ''app.py''], [''proj'', ''utils.py''],
                                 [''proj'', ''pkg'', ''__init__.py''],
                                 [''proj'', ''pkg'', ''helpers.py'']]),
     fs_resolve = (\<lambda>p. p),
     find_spec = (\<lambda>name. if name = ''os''
                          then OriginPath [''usr'', ''lib'', ''python3.11'', ''os.py'']
                          else NoSpec),
     builtin_module_names = [''sys'', ''builtins'', ''time'', ''posix'', ''marshal''],
     sources = [([''proj'', ''app.py''],
                   Parsed [Import [''os'', ''utils''], ImportFrom (Some ''pkg'') 0]),
                ([''proj'', ''utils.py''], Parsed []),
                ([''proj'', ''pkg'', ''__init__.py''], Parsed [ImportFrom (Some ''helpers'') 1]),
                ([''proj'', ''pkg'', ''helpers.py''], Parsed [ImportFrom (Some ''utils'') 5])],
     hash_key = (\<lambda>p. 0),
     read_text = (\<lambda>p. if p = [''proj'', ''utils.py''] then Content ''X = 1''
                       else if p = [''proj'', ''app.py''] then Content ''import utils''
                       else FileNotFoundError),
     can_write = (\<lambda>p. True),
     value_error_text = (\<lambda>p. ''not in the subpath''),
     cwd = [''proj''],
     symlink_loop = (\<lambda>p. False)\<rparr>"

definition example_graph :: "path graph" where
  "example_graph =
     [([''proj'', ''app.py''], [[''proj'', ''utils.py''], [''proj'', ''pkg'', ''__init__.py'']]),
      ([''proj'', ''utils.py''], []),
      ([''proj'', ''pkg'', ''__init__.py''], [[''proj'', ''pkg'', ''helpers.py'']]),
      ([''proj'', ''pkg'', ''helpers.py''], [[''proj'', ''utils.py'']])]"

lemma example_graph_built:
  "build_dependency_graph (project_table example_env [''proj''])
       (\<lambda>p. is_relative_to p [''proj'']) [''proj'', ''app.py'']
     = (example_graph, set (map fst example_graph))"
  by code_simp

theorem built_graph_lies_under_project_root_witness:
  "build_dependency_graph (project_table example_env [''proj''])
       (\<lambda>p. is_relative_to p [''proj'']) [''proj'', ''app.py'']
     = (example_graph, set (map fst example_graph)) \<and>
   list_all (\<lambda>(k, ds). is_relative_to k [''proj''] \<and> list_all (\<lambda>d. is_relative_to d [''proj'']) ds)
     example_graph \<and>
   resolve_module example_env [''proj'', ''app.py''] [''proj''] ''utils'' 0
     = Inr (Some [''proj'', ''utils.py'']) \<and>
   is_relative_to [''proj'', ''utils.py''] [''proj'']"
proof -
  note t = built_graph_lies_under_project_root[OF example_graph_built]
  have r: "resolve_module example_env [''proj'', ''app.py''] [''proj''] ''utils'' 0
     = Inr (Some [''proj'', ''utils.py''])" by code_simp
  from t have "list_all (\<lambda>(k, ds). is_relative_to k [''proj''] \<and>
      list_all (\<lambda>d. is_relative_to d [''proj'']) ds) example_graph"
    by (simp add: list_all_iff case_prod_beta)
  moreover from t r have "is_relative_to [''proj'', ''utils.py''] [''proj'']" by blast
  ultimately show ?thesis using example_graph_built r by blast
qed

subsection \<open>Relative imports that climb above the filesystem root\<close>

text \<open>
  The two candidate files of a dotted name below a base directory, in the words of the
  specification: the segments with the source extension, and the package-init file in the
  directory of the segments.
\<close>

definition candidates :: "path \<Rightarrow> string \<Rightarrow> path list" where
  "candidates base module_name =
     (let segments = split_dot module_name in
      [base @ butlast segments @ [last segments @ ''.py''],
       base @ segments @ [''__init__.py'']])"

lemma split_dot_not_Nil: "split_dot m \<noteq> []"
  by (induction m) (auto split: list.splits)

lemma split_dot_no_dot: "s \<in> set (split_dot m) \<Longrightarrow> CHR ''.'' \<notin> set s"
  by (induction m arbitrary: s) (auto split: if_splits list.splits)

lemma suffix_of_no_dot: "CHR ''.'' \<notin> set name \<Longrightarrow> suffix_of name = []"
  by (simp add: suffix_of_def rfind_dot_def)

lemma with_suffix_segments:
  assumes "segments \<noteq> []" "CHR ''.'' \<notin> set (last segments)"
  shows "with_suffix (base @ segments) sfx = Inr (base @ butlast segments @ [last segments @ sfx])"
  using assms by (simp add: with_suffix_def suffix_of_no_dot butlast_append)

lemma joinpath_segments: "[] \<notin> set segments \<Longrightarrow> joinpath base segments = base @ segments"
  by (simp add: joinpath_def filter_id_conv) metis

lemma parent_power: "(parent ^^ n) p = take (length p - n) p"
proof -
  have "parent = butlast" by (simp add: fun_eq_iff parent_def)
  then show ?thesis by (simp add: butlast_power)
qed

lemma try_candidates_none:
  assumes seg: "[] \<notin> set (split_dot module_name)"
    and nf: "\<forall>c\<in>set (candidates base module_name).
               \<not> (fs_is_file env c \<and> is_relative_to c project_root)"
  shows "try_candidates env project_root (base @ split_dot module_name) = Inr None"
proof -
  let ?segs = "split_dot module_name"
  have "last ?segs \<in> set ?segs" using split_dot_not_Nil by (rule last_in_set)
  then have "CHR ''.'' \<notin> set (last ?segs)" by (rule split_dot_no_dot)
  with split_dot_not_Nil have w: "with_suffix (base @ ?segs) ''.py''
      = Inr (base @ butlast ?segs @ [last ?segs @ ''.py''])"
    by (rule with_suffix_segments)
  from nf show ?thesis
    unfolding try_candidates_def w by (auto simp: candidates_def Let_def)
qed

lemma try_candidates_some:
  assumes seg: "[] \<notin> set (split_dot module_name)"
    and f: "\<exists>c\<in>set (candidates base module_name).
               fs_is_file env c \<and> is_relative_to c project_root"
  shows "try_candidates env project_root (base @ split_dot module_name) \<noteq> Inr None"
proof -
  let ?segs = "split_dot module_name"
  have "last ?segs \<in> set ?segs" using split_dot_not_Nil by (rule last_in_set)
  then have "CHR ''.'' \<notin> set (last ?segs)" by (rule split_dot_no_dot)
  with split_dot_not_Nil have w: "with_suffix (base @ ?segs) ''.py''
      = Inr (base @ butlast ?segs @ [last ?segs @ ''.py''])"
    by (rule with_suffix_segments)
  from f show ?thesis
    unfolding try_candidates_def w
    by (auto simp: candidates_def Let_def split: sum.splits)
qed




text \<open>
  The proviso cannot be dropped: when the module is not an external one and a candidate is
  an existing file under the project root, the resolver does not answer "not local" (it
  returns the file, or raises when the canonical path of the file has left the project).
\<close>

lemma excessive_relative_level_proviso_needed:
  assumes lv: "length file_path < level"
    and seg: "[] \<notin> set (split_dot module_name)"
    and ex: "\<not> external_module env project_root module_name"
    and f: "\<not> list_all (\<lambda>c. \<not> (fs_is_file env c \<and> is_relative_to c project_root))
               (candidates [] module_name @ candidates project_root module_name)"
  shows "resolve_module env file_path project_root module_name level \<noteq> Inr None"
proof -
  from seg have ne: "module_name \<noteq> []" by auto
  from lv have base: "(parent ^^ (level - 1)) (parent file_path) = []"
    by (simp add: parent_power parent_def)
  from lv have l0: "level > 0" by simp
  have r: "resolve_module env file_path project_root module_name level =
      (case try_candidates env project_root (split_dot module_name) of
              Inl e \<Rightarrow> Inl e
            | Inr (Some final_path) \<Rightarrow> Inr (Some final_path)
            | Inr None \<Rightarrow> try_candidates env project_root (project_root @ split_dot module_name))"
    using ex ne base l0 unfolding resolve_module_def Let_def joinpath_segments[OF seg]
    by simp
  show ?thesis
  proof (cases "\<exists>c\<in>set (candidates [] module_name).
               fs_is_file env c \<and> is_relative_to c project_root")
    case True
    from try_candidates_some[OF seg True] have
      "try_candidates env project_root (split_dot module_name) \<noteq> Inr None" by simp
    then show ?thesis unfolding r by (auto split: sum.splits option.splits)
  next
    case False
    with f have "\<exists>c\<in>set (candidates project_root module_name).
               fs_is_file env c \<and> is_relative_to c project_root"
      by (auto simp: list_all_iff)
    from try_candidates_some[OF seg this] have
      t2: "try_candidates env project_root (project_root @ split_dot module_name) \<noteq> Inr None" .
    from False have "\<forall>c\<in>set (candidates [] module_name).
                      \<not> (fs_is_file env c \<and> is_relative_to c project_root)" by blast
    from try_candidates_none[OF seg this] have
      "try_candidates env project_root (split_dot module_name) = Inr None" by simp
    with t2 show ?thesis unfolding r by simp
  qed
qed


text \<open>
  With an empty dotted name (\<^verbatim>\<open>from ..... import x\<close>) the path to try is the filesystem
  root itself, and \<^verbatim>\<open>with_suffix\<close> raises.
\<close>

lemma excessive_relative_level_bare_import_raises:
  "resolve_module example_env [''proj'', ''pkg'', ''helpers.py''] [''proj''] [] 5 = Inl ValueError"
  by code_simp

section \<open>The standalone command-line variant\<close>

text \<open>
  \<^verbatim>\<open>code2text.py\<close> is a second implementation of the same pipeline. Its paths are strings;
  \<open>posix_str\<close> is the string of an absolute path, which the variant compares with
  \<^verbatim>\<open>str.startswith\<close>.
\<close>

definition posix_str :: "path \<Rightarrow> string" where
  "posix_str p = (if p = [] then ''/'' else concat (map (\<lambda>c. ''/'' @ c) p))"

text \<open>
  \<^verbatim>\<open>ImportAnalyzer._is_stdlib_module\<close> (lines 61-65): the first segment of the name is one of
  \<^verbatim>\<open>sys.builtin_module_names\<close>.
\<close>

definition is_stdlib_module :: "env \<Rightarrow> string \<Rightarrow> bool" where
  "is_stdlib_module env module_name =
     (case split_dot module_name of
        [] \<Rightarrow> False
      | first # rest \<Rightarrow> first \<in> set (builtin_module_names env))"

text \<open>
  The module names that \<^verbatim>\<open>visit_Import\<close> and \<^verbatim>\<open>visit_ImportFrom\<close> (lines 27-59) record for
  one statement; \<open>base_path\<close> is the directory of the analysed file. An absolute path has
  one part more than it has components (the root is a part) and as many \<^verbatim>\<open>parents\<close> as
  components, so a level equal to the number of parts passes the guard of line 43 and then
  indexes \<^verbatim>\<open>parents\<close> out of range.
\<close>

fun cli_visit :: "env \<Rightarrow> path \<Rightarrow> import_stmt \<Rightarrow> error + string list" where
  "cli_visit env base_path (Import names) =
     Inr (filter (\<lambda>module_name. \<not> is_stdlib_module env module_name) names)"
| "cli_visit env base_path (ImportFrom None level) = Inr []"
| "cli_visit env base_path (ImportFrom (Some module) level) =
     (if level > 0 then
        (if level > length base_path + 1 then Inr []
         else if level > 1 \<and> \<not> level - 1 < length base_path then Inl IndexError
         else if module \<noteq> [] then Inr [replicate level CHR ''.'' @ module]
         else Inr [])
      else if \<not> is_stdlib_module env module then Inr [module]
      else Inr [])"

text \<open>
  \<^verbatim>\<open>resolve_module_path\<close> (lines 75-106); \<open>dotted_file\<close> is
  \<^verbatim>\<open>base / f"{module_name.replace('.', '/')}.py"\<close>.
\<close>

definition dotted_file :: "path \<Rightarrow> string \<Rightarrow> path" where
  "dotted_file base module_name =
     (let segments = split_dot module_name in
      joinpath base (butlast segments @ [last segments @ ''.py'']))"

definition resolve_module_path :: "env \<Rightarrow> string \<Rightarrow> path \<Rightarrow> path \<Rightarrow> path" where
  "resolve_module_path env module_name current_file_path project_root =
     (if module_name \<noteq> [] \<and> hd module_name = CHR ''.'' then
        (let level = length (takeWhile (\<lambda>c. c = CHR ''.'') module_name);
             module_name = drop level module_name;
             parent_dir = (parent ^^ (level - 1)) (parent current_file_path)
         in if module_name \<noteq> [] then dotted_file parent_dir module_name
            else parent_dir @ [''__init__.py''])
      else
        (let module_path = dotted_file project_root module_name;
             package_path = joinpath project_root (split_dot module_name)
         in if fs_is_dir env package_path \<and> fs_exists env (package_path @ [''__init__.py''])
            then package_path @ [''__init__.py'']
            else module_path))"

text \<open>
  \<^verbatim>\<open>analyze_imports\<close> (lines 109-132) for a file with one import statement: the recorded
  names are resolved, and a path is kept when it exists and its string starts with the
  project root. An exception of the visitor is not caught there.
\<close>

definition analyze_imports :: "env \<Rightarrow> path \<Rightarrow> path \<Rightarrow> import_stmt \<Rightarrow> error + path list" where
  "analyze_imports env file_path project_root stmt =
     (case cli_visit env (parent file_path) stmt of
        Inl e \<Rightarrow> Inl e
      | Inr imports \<Rightarrow>
          Inr (filter (\<lambda>module_path. fs_exists env module_path
                         \<and> prefix (posix_str project_root) (posix_str module_path))
                 (map (\<lambda>module_name. resolve_module_path env module_name file_path project_root)
                    imports)))"

text \<open>
  An import statement is classified as local by a variant when the variant records a
  dependency for it.
\<close>

definition cli_local :: "env \<Rightarrow> path \<Rightarrow> path \<Rightarrow> import_stmt \<Rightarrow> bool" where
  "cli_local env file_path project_root stmt =
     (case analyze_imports env file_path project_root stmt of
        Inr (p # ps) \<Rightarrow> True
      | _ \<Rightarrow> False)"

definition core_local :: "env \<Rightarrow> path \<Rightarrow> path \<Rightarrow> import_stmt \<Rightarrow> bool" where
  "core_local env file_path project_root stmt =
     (case visit_stmts env file_path project_root [stmt] [] of
        Inr (p # ps) \<Rightarrow> True
      | _ \<Rightarrow> False)"

text \<open>
  A project with a module \<^verbatim>\<open>json.py\<close> of its own, which shadows a module of the standard
  library that is not built into the interpreter, and a package \<^verbatim>\<open>pkg\<close>.
\<close>

definition shadow_env :: env where
  "shadow_env = \<lparr>
     fs_is_file = (\<lambda>p. p \<in> set [[''proj'', ''main.py''], [''proj'', ''json.py''],
                                  [''proj'', ''pkg'', ''__init__.py''],
                                  [''proj'', ''pkg'', ''mod.py'']]),
     fs_is_dir = (\<lambda>p. p \<in> set [[], [''proj''], [''proj'', ''pkg'']]),
     fs_exists = (\<lambda>p. p \<in> set [[], [''proj''], [''proj'', ''pkg''],
                                 [''proj'', ''main.py''], [''proj'', ''json.py''],
                                 [''proj'', ''pkg'', ''__init__.py''],
                                 [''proj'', ''pkg'', ''mod.py'']]),
     fs_resolve = (\<lambda>p. p),
     find_spec = (\<lambda>name. if name = ''json''
                          then OriginPath [''usr'', ''lib'', ''python3.11'', ''json'', ''__init__.py'']
                          else NoSpec),
     builtin_module_names = [''sys'', ''builtins'', ''time'', ''posix'', ''marshal''],
     sources = [],
     hash_key = (\<lambda>p. 0),
     read_text = (\<lambda>p. FileNotFoundError),
     can_write = (\<lambda>p. True),
     value_error_text = (\<lambda>p. []),
     cwd = [''proj''],
     symlink_loop = (\<lambda>p. False)\<rparr>"

text \<open>
  Claim C10. The two variants are not extensionally equal. \<^verbatim>\<open>import json\<close> in
  \<^verbatim>\<open>/proj/main.py\<close> is local for the command-line variant (\<^verbatim>\<open>json\<close> is not a built-in
  module name, and \<^verbatim>\<open>/proj/json.py\<close> exists) and not local for the core (the runtime finds
  \<^verbatim>\<open>json\<close> outside the project); \<^verbatim>\<open>from . import x\<close> in \<^verbatim>\<open>/proj/pkg/mod.py\<close> is ignored
  by the command-line variant and resolved to \<^verbatim>\<open>/proj/pkg/__init__.py\<close> by the core.
\<close>

theorem cli_and_core_classify_differently:
  "cli_local shadow_env [''proj'', ''main.py''] [''proj''] (Import [''json'']) \<and>
   \<not> core_local shadow_env [''proj'', ''main.py''] [''proj''] (Import [''json'']) \<and>
   \<not> cli_local shadow_env [''proj'', ''pkg'', ''mod.py''] [''proj''] (ImportFrom None 1) \<and>
   core_local shadow_env [''proj'', ''pkg'', ''mod.py''] [''proj''] (ImportFrom None 1)"
  by code_simp

section \<open>The bundle writer\<close>

text \<open>
  \<^verbatim>\<open>create_combined_file\<close> (lines 249-283) writes text; a string is the list of its
  characters. \<open>relative_str\<close> is \<^verbatim>\<open>str\<close> of a relative path, and the code then replaces
  every backslash by a slash.
\<close>

definition newline :: string where
  "newline = [CHR 0x0A]"

definition endswith_newline :: "string \<Rightarrow> bool" where
  "endswith_newline content = (content \<noteq> [] \<and> last content = CHR 0x0A)"

definition relative_str :: "path \<Rightarrow> string" where
  "relative_str rel =
     (case rel of [] \<Rightarrow> ''.'' | c # cs \<Rightarrow> c @ concat (map (\<lambda>d. ''/'' @ d) cs))"

definition replace_backslash :: "string \<Rightarrow> string" where
  "replace_backslash s = map (\<lambda>c. if c = CHR 0x5C then CHR ''/'' else c) s"

text \<open>The four texts the writer formats (lines 264, 270, 273 and 276).\<close>

definition start_header :: "string \<Rightarrow> string" where
  "start_header relative_path_str = ''```'' @ newline @ ''# Start of '' @ relative_path_str @ newline"

definition end_footer :: "string \<Rightarrow> string" where
  "end_footer relative_path_str =
     ''# End of '' @ relative_path_str @ newline @ ''```'' @ newline @ newline"

definition not_found_block :: "string \<Rightarrow> string" where
  "not_found_block relative_path_str =
     ''```'' @ newline @ ''# Error: File not found: '' @ relative_path_str @ newline
     @ ''```'' @ newline @ newline"

definition read_error_block :: "string \<Rightarrow> string \<Rightarrow> string" where
  "read_error_block relative_path_str e =
     ''```'' @ newline @ ''# Error reading file: '' @ relative_path_str @ '' ('' @ e @ '')''
     @ newline @ ''```'' @ newline @ newline"

text \<open>
  The loop over the sorted files, on the text written so far and on the local variable
  \<^verbatim>\<open>relative_path_str\<close>, which is unassigned before the first file and keeps its last value
  afterwards. When \<^verbatim>\<open>relative_to\<close> raises, the handler of line 274 formats
  \<^verbatim>\<open>relative_path_str\<close>: with no value yet that is an \<^verbatim>\<open>UnboundLocalError\<close>, which leaves
  the function; otherwise the error block names the previous file. Writes to the opened
  output file are taken to succeed.
\<close>

fun write_files ::
  "env \<Rightarrow> path \<Rightarrow> path list \<Rightarrow> string option \<Rightarrow> string \<Rightarrow> (error + unit) \<times> string" where
  "write_files env project_root [] relative_path_str outfile = (Inr (), outfile)"
| "write_files env project_root (file_path # rest) relative_path_str outfile =
     (case relative_to file_path project_root of
        Inl e \<Rightarrow>
          (case relative_path_str of
             None \<Rightarrow> (Inl UnboundLocalError, outfile)
           | Some stale \<Rightarrow>
               write_files env project_root rest (Some stale)
                 (outfile @ read_error_block stale (value_error_text env file_path)))
      | Inr rel \<Rightarrow>
          (let rps = replace_backslash (relative_str rel);
               outfile = outfile @ start_header rps
           in case read_text env file_path of
                Content content \<Rightarrow>
                  write_files env project_root rest (Some rps)
                    (outfile @ content @ (if endswith_newline content then [] else newline)
                       @ end_footer rps)
              | FileNotFoundError \<Rightarrow>
                  write_files env project_root rest (Some rps) (outfile @ not_found_block rps)
              | ReadFailure e \<Rightarrow>
                  write_files env project_root rest (Some rps) (outfile @ read_error_block rps e)))"

text \<open>
  The result is the exception that leaves the function, if any, and the text of the output
  file, \<open>None\<close> when the file was not created.
\<close>

definition create_combined_file ::
  "env \<Rightarrow> path list \<Rightarrow> path \<Rightarrow> path \<Rightarrow> (error + unit) \<times> string option" where
  "create_combined_file env sorted_files output_path project_root =
     (if \<not> can_write env output_path then (Inl OSError, None)
      else (case write_files env project_root sorted_files None [] of
              (r, outfile) \<Rightarrow> (r, Some outfile)))"

subsection \<open>The bundle format of the specification\<close>

text \<open>
  The format in the words of the specification (section 6), written independently of the
  writer: a text is a sequence of lines, each ended by a line feed; the relative path of a
  file is the sequence of its components below the project root, split further at every
  backslash, and joined by forward slashes (\<^verbatim>\<open>.\<close> for the project root itself, as
  \<^verbatim>\<open>pathlib\<close> prints an empty relative path); the content gets a line feed unless it ends
  in one; and the block of a file is the opening delimiter (a fence line and the line
  \<^verbatim>\<open># Start of\<close> with the relative path), the content, and the closing delimiter (the
  line \<^verbatim>\<open># End of\<close> with the same path, a fence line and an empty line).
\<close>

definition unlines :: "string list \<Rightarrow> string" where
  "unlines ls = concat (map (\<lambda>l. l @ [CHR 0x0A]) ls)"

fun slash_joined :: "string list \<Rightarrow> string" where
  "slash_joined [] = []"
| "slash_joined [p] = p"
| "slash_joined (p # q # ps) = p @ CHR ''/'' # slash_joined (q # ps)"

definition spec_relative_path :: "path \<Rightarrow> path \<Rightarrow> string" where
  "spec_relative_path project_root file_path =
     (let rel = drop (length project_root) file_path in
      if rel = [] then ''.'' else slash_joined (concat (map (split_on (CHR 0x5C)) rel)))"

definition with_trailing_line_break :: "string \<Rightarrow> string" where
  "with_trailing_line_break content =
     (if suffix [CHR 0x0A] content then content else content @ [CHR 0x0A])"

definition spec_opening :: "string \<Rightarrow> string" where
  "spec_opening relative_path = unlines [''```'', ''# Start of '' @ relative_path]"

definition spec_closing :: "string \<Rightarrow> string" where
  "spec_closing relative_path = unlines [''# End of '' @ relative_path, ''```'', '''']"

definition spec_block :: "string \<Rightarrow> string \<Rightarrow> string" where
  "spec_block relative_path content =
     spec_opening relative_path @ with_trailing_line_break content @ spec_closing relative_path"

text \<open>
  The texts that the writer formats are those of the specification: replacing every
  backslash in the printed relative path gives the components joined by slashes, the test
  \<^verbatim>\<open>content.endswith('\n')\<close> is the test for a final line feed, and the header and the
  footer are the two delimiters.
\<close>

lemma split_on_not_Nil: "split_on sep s \<noteq> []"
  by (induction s) (auto split: list.splits)

lemma slash_joined_Cons_char: "slash_joined ((c # w) # ws) = c # slash_joined (w # ws)"
  by (cases ws) simp_all

lemma slash_joined_Nil_Cons: "ws \<noteq> [] \<Longrightarrow> slash_joined ([] # ws) = CHR ''/'' # slash_joined ws"
  by (cases ws) simp_all

lemma replace_backslash_split:
  "replace_backslash s = slash_joined (split_on (CHR 0x5C) s)"
proof (induction s)
  case Nil
  show ?case by (simp add: replace_backslash_def)
next
  case (Cons c cs)
  obtain w ws where sp: "split_on (CHR 0x5C) cs = w # ws"
    using split_on_not_Nil[of "CHR 0x5C" cs] by (cases "split_on (CHR 0x5C) cs") auto
  from Cons have ih: "map (\<lambda>c. if c = CHR 0x5C then CHR ''/'' else c) cs = slash_joined (w # ws)"
    by (simp add: replace_backslash_def sp)
  show ?case
  proof (cases "c = CHR 0x5C")
    case True
    then show ?thesis
      by (simp add: replace_backslash_def sp ih slash_joined_Nil_Cons)
  next
    case False
    then show ?thesis
      by (simp add: replace_backslash_def sp ih slash_joined_Cons_char)
  qed
qed

lemma slash_joined_append:
  "xs \<noteq> [] \<Longrightarrow> ys \<noteq> [] \<Longrightarrow>
     slash_joined (xs @ ys) = slash_joined xs @ CHR ''/'' # slash_joined ys"
proof (induction xs rule: slash_joined.induct)
  case 1
  then show ?case by simp
next
  case (2 p)
  then show ?case by (cases ys) simp_all
next
  case (3 p q ps)
  then show ?case by simp
qed

lemma replace_backslash_append:
  "replace_backslash (a @ b) = replace_backslash a @ replace_backslash b"
  by (simp add: replace_backslash_def)

lemma replace_backslash_components:
  "replace_backslash (c @ concat (map (\<lambda>d. ''/'' @ d) cs))
     = slash_joined (split_on (CHR 0x5C) c @ concat (map (split_on (CHR 0x5C)) cs))"
proof (induction cs arbitrary: c)
  case Nil
  show ?case by (simp add: replace_backslash_split)
next
  case (Cons d ds)
  have ne: "split_on (CHR 0x5C) d @ concat (map (split_on (CHR 0x5C)) ds) \<noteq> []"
    using split_on_not_Nil[of "CHR 0x5C" d] by simp
  have "replace_backslash (c @ concat (map (\<lambda>d. ''/'' @ d) (d # ds)))
      = replace_backslash c @ CHR ''/'' # replace_backslash (d @ concat (map (\<lambda>d. ''/'' @ d) ds))"
    by (simp add: replace_backslash_def)
  also have "\<dots> = slash_joined (split_on (CHR 0x5C) c) @ CHR ''/'' #
      slash_joined (split_on (CHR 0x5C) d @ concat (map (split_on (CHR 0x5C)) ds))"
    unfolding Cons.IH replace_backslash_split[of c] by (rule refl)
  also have "\<dots> = slash_joined (split_on (CHR 0x5C) c @
      (split_on (CHR 0x5C) d @ concat (map (split_on (CHR 0x5C)) ds)))"
    using slash_joined_append[OF split_on_not_Nil ne, of "CHR 0x5C" c] by simp
  finally show ?case by simp
qed

lemma relative_path_str_is_specified:
  "replace_backslash (relative_str (drop (length project_root) file_path))
     = spec_relative_path project_root file_path"
proof (cases "drop (length project_root) file_path")
  case Nil
  then show ?thesis
    by (simp add: spec_relative_path_def relative_str_def replace_backslash_def)
next
  case (Cons c cs)
  then show ?thesis
    by (simp add: spec_relative_path_def relative_str_def replace_backslash_components)
qed

lemma endswith_newline_suffix: "endswith_newline content \<longleftrightarrow> suffix [CHR 0x0A] content"
  by (cases content rule: rev_cases) (auto simp: endswith_newline_def)

lemma start_header_is_specified: "start_header r = spec_opening r"
  by (simp add: start_header_def spec_opening_def unlines_def newline_def)

lemma end_footer_is_specified: "end_footer r = spec_closing r"
  by (simp add: end_footer_def spec_closing_def unlines_def newline_def)

text \<open>
  What the writer writes for files under the project root, to an output path that can be
  opened: it does not raise, and the output is the concatenation, in order, of one piece
  per file. For a readable file the piece is the block of the specification. For a file
  that cannot be read the piece is the opening delimiter of its block, which line 264 has
  written before line 265 opens the file, followed by the error block of the handler
  (lines 273 and 276), which has fences of its own.
\<close>

lemma write_files_output:
  assumes "list_all (\<lambda>f. is_relative_to f project_root) files"
  shows "write_files env project_root files rps outfile
           = (Inr (), outfile @ concat (map (\<lambda>f.
                case read_text env f of
                  Content content \<Rightarrow> spec_block (spec_relative_path project_root f) content
                | FileNotFoundError \<Rightarrow>
                    spec_opening (spec_relative_path project_root f)
                    @ not_found_block (spec_relative_path project_root f)
                | ReadFailure e \<Rightarrow>
                    spec_opening (spec_relative_path project_root f)
                    @ read_error_block (spec_relative_path project_root f) e) files))"
  using assms
proof (induction files arbitrary: rps outfile)
  case Nil
  then show ?case by simp
next
  case (Cons f files)
  from Cons.prems have r: "relative_to f project_root = Inr (drop (length project_root) f)"
    and rest: "list_all (\<lambda>f. is_relative_to f project_root) files"
    by (simp_all add: relative_to_def is_relative_to_def)
  show ?case
    by (cases "read_text env f")
       (simp_all add: r Cons.IH[OF rest] Let_def relative_path_str_is_specified
          start_header_is_specified end_footer_is_specified spec_block_def
          with_trailing_line_break_def endswith_newline_suffix newline_def)
qed

lemma writer_output:
  assumes "can_write env output_path"
    and "list_all (\<lambda>f. is_relative_to f project_root) sorted_files"
  shows "create_combined_file env sorted_files output_path project_root
           = (Inr (), Some (concat (map (\<lambda>f.
                case read_text env f of
                  Content content \<Rightarrow> spec_block (spec_relative_path project_root f) content
                | FileNotFoundError \<Rightarrow>
                    spec_opening (spec_relative_path project_root f)
                    @ not_found_block (spec_relative_path project_root f)
                | ReadFailure e \<Rightarrow>
                    spec_opening (spec_relative_path project_root f)
                    @ read_error_block (spec_relative_path project_root f) e) sorted_files)))"
  using assms by (simp add: create_combined_file_def write_files_output)

lemma readable_files_are_written_as_specified:
  assumes "can_write env output_path"
    and "list_all (\<lambda>f. is_relative_to f project_root) sorted_files"
    and "list_all (\<lambda>f. \<exists>content. read_text env f = Content content) sorted_files"
  shows "create_combined_file env sorted_files output_path project_root
           = (Inr (), Some (concat (map (\<lambda>f.
                spec_block (spec_relative_path project_root f)
                  (case read_text env f of Content content \<Rightarrow> content | _ \<Rightarrow> [])) sorted_files)))"
proof -
  have "map (\<lambda>f. case read_text env f of
                  Content content \<Rightarrow> spec_block (spec_relative_path project_root f) content
                | FileNotFoundError \<Rightarrow>
                    spec_opening (spec_relative_path project_root f)
                    @ not_found_block (spec_relative_path project_root f)
                | ReadFailure e \<Rightarrow>
                    spec_opening (spec_relative_path project_root f)
                    @ read_error_block (spec_relative_path project_root f) e) sorted_files
      = map (\<lambda>f. spec_block (spec_relative_path project_root f)
                  (case read_text env f of Content content \<Rightarrow> content | _ \<Rightarrow> [])) sorted_files"
    using assms(3) by (intro map_cong) (auto simp: list_all_iff)
  with writer_output[OF assms(1,2)] show ?thesis by simp
qed

text \<open>
  Claim C9. A readable file gets the block of the specification (lemma
  \<open>readable_files_are_written_as_specified\<close>). A file that cannot be read must yield an
  error block in place of its block, and it does not: the bundle of the missing file
  \<^verbatim>\<open>/proj/pkg/helpers.py\<close> and of \<^verbatim>\<open>/proj/utils.py\<close> starts with the opening delimiter of
  the block of \<^verbatim>\<open>helpers.py\<close>, which is never closed (there is no line \<^verbatim>\<open># End of\<close> for
  it), and the error block follows inside it. The missing file contributes three fence
  lines, so from there on the fences of the bundle are reversed: the error line and the
  content of \<^verbatim>\<open>utils.py\<close> stand outside the fenced regions. The standalone variant
  (\<^verbatim>\<open>code2text.py\<close>, lines 198-209) writes its error line inside the block and closes the
  block.
\<close>

theorem unreadable_file_leaves_its_block_open:
  "read_text example_env [''proj'', ''pkg'', ''helpers.py''] = FileNotFoundError \<and>
   create_combined_file example_env
       [[''proj'', ''pkg'', ''helpers.py''], [''proj'', ''utils.py'']]
       [''out'', ''bundle.txt''] [''proj'']
     = (Inr (), Some (unlines
         [''```'',
          ''# Start of pkg/helpers.py'',
          ''```'',
          ''# Error: File not found: pkg/helpers.py'',
          ''```'',
          '''',
          ''```'',
          ''# Start of utils.py'',
          ''X = 1'',
          ''# End of utils.py'',
          ''```'',
          '''']))"
  by code_simp

text \<open>
  A file that cannot be decoded, and a file outside the project root as the first file:
  \<^verbatim>\<open>relative_to\<close> raises, the handler of line 274 formats \<^verbatim>\<open>relative_path_str\<close>, which
  has no value yet, and the \<^verbatim>\<open>UnboundLocalError\<close> leaves the writer.
\<close>

lemma undecodable_file_example:
  "create_combined_file (example_env\<lparr>read_text := (\<lambda>p. ReadFailure ''invalid start byte'')\<rparr>)
       [[''proj'', ''utils.py'']] [''out'', ''bundle.txt''] [''proj'']
     = (Inr (), Some (unlines
         [''```'', ''# Start of utils.py'', ''```'',
          ''# Error reading file: utils.py (invalid start byte)'', ''```'', '''']))"
  "create_combined_file example_env [[''elsewhere'', ''x.py'']] [''out'', ''bundle.txt''] [''proj'']
     = (Inl UnboundLocalError, Some [])"
  by code_simp+

text \<open>Two readable files, and the pieces of the format, on the project of the example.\<close>

lemma readable_example:
  "create_combined_file example_env [[''proj'', ''utils.py''], [''proj'', ''app.py'']]
       [''out'', ''bundle.txt''] [''proj'']
     = (Inr (), Some (unlines
         [''```'', ''# Start of utils.py'', ''X = 1'', ''# End of utils.py'', ''```'', '''',
          ''```'', ''# Start of app.py'', ''import utils'', ''# End of app.py'', ''```'', '''']))"
  "spec_relative_path [''proj''] [''proj'', ''pkg'', ''helpers.py''] = ''pkg/helpers.py''"
  "spec_block ''a.py'' (''x = 1'' @ [CHR 0x0A])
     = unlines [''```'', ''# Start of a.py'', ''x = 1'', ''# End of a.py'', ''```'', '''']"
  by code_simp+

section \<open>The orchestrator\<close>

text \<open>\<^verbatim>\<open>find_project_root\<close> (lines 11-37): the nearest ancestor that holds a marker.\<close>

definition markers :: "string list" where
  "markers = [''.git'', ''pyproject.toml'', ''setup.py'', ''requirements.txt'', ''.project_root'']"

lemma parent_shorter: "parent p \<noteq> p \<Longrightarrow> length (parent p) < length p"
  by (cases p rule: rev_cases) (simp_all add: parent_def)

function find_root_loop :: "env \<Rightarrow> path \<Rightarrow> path \<Rightarrow> path option" where
  "find_root_loop env start_path current_dir =
     (if list_ex (\<lambda>marker. fs_exists env (current_dir @ [marker])) markers then Some current_dir
      else if parent current_dir = current_dir then
        (if fs_is_file env start_path then Some (parent start_path) else Some start_path)
      else find_root_loop env start_path (parent current_dir))"
  by pat_completeness auto
termination
proof (relation "measure (\<lambda>(env, start_path, current_dir). length current_dir)", goal_cases)
  case 1
  show ?case by simp
next
  case 2
  then show ?case by (simp add: parent_shorter)
qed

definition find_project_root :: "env \<Rightarrow> path \<Rightarrow> path option" where
  "find_project_root env start_path =
     (let current_dir = fs_resolve env start_path;
          current_dir = (if fs_is_file env current_dir then parent current_dir else current_dir)
      in find_root_loop env start_path current_dir)"

text \<open>
  The lines that \<^verbatim>\<open>run_bundling_process\<close> sends to the progress callback, one constructor
  per message; \<open>MainNotFound\<close> carries the argument \<^verbatim>\<open>main_py_file\<close> as it was given, and
  \<open>Item\<close> is a line \<^verbatim>\<open>- <relative path>\<close>. Formatting such a line evaluates
  \<^verbatim>\<open>relative_to(project_root)\<close>, which can raise.
\<close>

datatype log_line =
    Starting
  | MainNotFound string
  | CouldNotDetermineRoot
  | DefaultingRoot path
  | DetectedRoot path
  | IdentifiedFiles
  | Item path
  | ErrorBuilding error
  | SortComplete
  | CyclesDetected
  | NoCycles
  | FileOrder
  | ErrorSorting error
  | ErrorCreating error
  | Traceback error
  | Finished path

fun log_items :: "path \<Rightarrow> path list \<Rightarrow> log_line list \<Rightarrow> (error + unit) \<times> log_line list" where
  "log_items project_root [] log = (Inr (), log)"
| "log_items project_root (f # fs) log =
     (case relative_to f project_root of
        Inl e \<Rightarrow> (Inl e, log)
      | Inr rel \<Rightarrow> log_items project_root fs (log @ [Item rel]))"

text \<open>
  The bodies of the first two \<^verbatim>\<open>try\<close> blocks (lines 316-320 and 329-348), with the lines
  logged until an exception leaves them. The functions called are parameters: they return a
  value or raise. \<open>set_order\<close> is the order in which the set of cycle nodes is iterated.
\<close>

definition build_phase ::
  "(path \<Rightarrow> path \<Rightarrow> error + (path graph \<times> path list)) \<Rightarrow> path \<Rightarrow> path \<Rightarrow> log_line list
     \<Rightarrow> (error + path graph) \<times> log_line list" where
  "build_phase build_call main_path project_root log =
     (case build_call main_path project_root of
        Inl e \<Rightarrow> (Inl e, log)
      | Inr (graph, all_files) \<Rightarrow>
          (case log_items project_root all_files (log @ [IdentifiedFiles]) of
             (Inl e, log') \<Rightarrow> (Inl e, log')
           | (Inr u, log') \<Rightarrow> (Inr graph, log')))"

definition sort_phase ::
  "(path graph \<Rightarrow> error + (path list \<times> (path \<times> path) list)) \<Rightarrow> (path list \<Rightarrow> path list)
     \<Rightarrow> path graph \<Rightarrow> path \<Rightarrow> path \<Rightarrow> log_line list \<Rightarrow> (error + path list) \<times> log_line list" where
  "sort_phase sort_call set_order graph main_path project_root log =
     (case sort_call graph of
        Inl e \<Rightarrow> (Inl e, log)
      | Inr (sorted_files, cycles) \<Rightarrow>
          (case (if cycles \<noteq> [] then
                   log_items project_root
                     (set_order (remdups (concat (map (\<lambda>(a, b). [a, b]) cycles))))
                     (log @ [SortComplete, CyclesDetected])
                 else (Inr (), log @ [SortComplete, NoCycles])) of
             (Inl e, log') \<Rightarrow> (Inl e, log')
           | (Inr u, log') \<Rightarrow>
               (let sorted_files = final_order main_path sorted_files in
                case log_items project_root sorted_files (log' @ [FileOrder]) of
                  (Inl e, log'') \<Rightarrow> (Inl e, log'')
                | (Inr u, log'') \<Rightarrow> (Inr sorted_files, log''))))"

text \<open>Lines 304-311: the project root that is used, and the lines logged so far.\<close>

definition root_and_log :: "path option \<Rightarrow> path \<Rightarrow> path \<times> log_line list" where
  "root_and_log found main_path =
     (case found of
        None \<Rightarrow> (parent main_path,
                  [Starting, CouldNotDetermineRoot, DefaultingRoot (parent main_path)])
      | Some project_root \<Rightarrow> (project_root, [Starting, DetectedRoot project_root]))"

text \<open>
  \<^verbatim>\<open>run_bundling_process\<close> (lines 288-366). Its two arguments are strings. After the first
  progress line, lines 295 and 296 turn them into canonical paths with
  \<^verbatim>\<open>Path(main_py_file).resolve()\<close> and \<^verbatim>\<open>Path(output_txt_file).resolve()\<close>; these two
  calls, the check \<^verbatim>\<open>main_path.is_file()\<close> (line 298) and the call of
  \<^verbatim>\<open>find_project_root\<close> (line 303) stand before the first \<^verbatim>\<open>try\<close> and outside every
  handler. The functions called are parameters: each returns a value or raises. The result
  is what the caller gets (\<open>Inr\<close> the returned flag, \<open>Inl\<close> an exception that reaches the
  caller), the lines logged, and the text of the output file if one was created.
\<close>

definition run_bundling_process ::
  "(string \<Rightarrow> error + path) \<Rightarrow> (path \<Rightarrow> error + bool) \<Rightarrow> (path \<Rightarrow> error + path option)
     \<Rightarrow> (path \<Rightarrow> path \<Rightarrow> error + (path graph \<times> path list))
     \<Rightarrow> (path graph \<Rightarrow> error + (path list \<times> (path \<times> path) list))
     \<Rightarrow> (path list \<Rightarrow> path list)
     \<Rightarrow> (path list \<Rightarrow> path \<Rightarrow> path \<Rightarrow> (error + unit) \<times> string option)
     \<Rightarrow> string \<Rightarrow> string \<Rightarrow> (error + bool) \<times> log_line list \<times> string option" where
  "run_bundling_process resolve_call is_file_call locate_root_call build_call sort_call set_order
     write_call main_py_file output_txt_file =
     (case resolve_call main_py_file of
        Inl e \<Rightarrow> (Inl e, [Starting], None)
      | Inr main_path \<Rightarrow>
     (case resolve_call output_txt_file of
        Inl e \<Rightarrow> (Inl e, [Starting], None)
      | Inr output_path \<Rightarrow>
     (case is_file_call main_path of
        Inl e \<Rightarrow> (Inl e, [Starting], None)
      | Inr False \<Rightarrow> (Inr False, [Starting, MainNotFound main_py_file], None)
      | Inr True \<Rightarrow>
          (case locate_root_call main_path of
             Inl e \<Rightarrow> (Inl e, [Starting], None)
           | Inr found \<Rightarrow>
               (let (project_root, log) = root_and_log found main_path
                in case build_phase build_call main_path project_root log of
                     (Inl e, log) \<Rightarrow> (Inr False, log @ [ErrorBuilding e, Traceback e], None)
                   | (Inr graph, log) \<Rightarrow>
                       (case sort_phase sort_call set_order graph main_path project_root log of
                          (Inl e, log) \<Rightarrow> (Inr False, log @ [ErrorSorting e, Traceback e], None)
                        | (Inr sorted_files, log) \<Rightarrow>
                            (case write_call sorted_files output_path project_root of
                               (Inl e, written) \<Rightarrow>
                                 (Inr False, log @ [ErrorCreating e, Traceback e], written)
                             | (Inr u, written) \<Rightarrow>
                                 (Inr True, log @ [Finished output_path], written))))))))"

text \<open>
  The orchestrator with the functions of this repository in place of the parameters. The
  environment answers \<^verbatim>\<open>is_file()\<close> for every path, and \<open>find_project_root\<close> above returns
  for every path, so in a run of \<open>run_bundle\<close> only the two calls of \<^verbatim>\<open>resolve()\<close> can
  raise outside the \<^verbatim>\<open>try\<close> blocks.
\<close>

definition run_bundle ::
  "env \<Rightarrow> nat \<Rightarrow> string \<Rightarrow> string \<Rightarrow> (error + bool) \<times> log_line list \<times> string option" where
  "run_bundle env depth main_py_file output_txt_file =
     run_bundling_process
       (Path_resolve env)
       (\<lambda>p. Inr (fs_is_file env p))
       (\<lambda>p. Inr (find_project_root env p))
       (\<lambda>main_file_path project_root.
          (case build_dependency_graph (project_table env project_root)
                  (\<lambda>p. is_relative_to p project_root) main_file_path of
             (graph, all_files) \<Rightarrow> Inr (graph, sort_key (hash_key env) (map fst graph))))
       (topological_sort depth)
       (sort_key (hash_key env))
       (create_combined_file env)
       main_py_file output_txt_file"

text \<open>
  When both arguments can be resolved and the entry path is not a file, the function logs
  the error and returns \<open>False\<close>; no later phase is called and no output file is created.
  \<^verbatim>\<open>/proj/missing.py\<close> is such a path, and so is the relative \<^verbatim>\<open>missing.py\<close> in the
  directory \<^verbatim>\<open>/proj\<close>.
\<close>

lemma missing_entry_file_returns_False:
  assumes "resolve_call main_py_file = Inr main_path"
    and "resolve_call output_txt_file = Inr output_path"
    and "is_file_call main_path = Inr False"
  shows "run_bundling_process resolve_call is_file_call locate_root_call build_call sort_call
           set_order write_call main_py_file output_txt_file
         = (Inr False, [Starting, MainNotFound main_py_file], None)"
  using assms by (simp add: run_bundling_process_def)

lemma missing_entry_file_example:
  "run_bundle example_env 10 ''/proj/missing.py'' ''/out/bundle.txt''
     = (Inr False, [Starting, MainNotFound ''/proj/missing.py''], None)"
  "run_bundle example_env 10 ''missing.py'' ''bundle.txt''
     = (Inr False, [Starting, MainNotFound ''missing.py''], None)"
  by code_simp+

text \<open>A run that succeeds, with both arguments relative to the current directory.\<close>

lemma relative_arguments_are_resolved:
  "Path_resolve example_env ''app.py'' = Inr [''proj'', ''app.py'']"
  "Path_resolve example_env ''./out//bundle.txt'' = Inr [''proj'', ''out'', ''bundle.txt'']"
  "fst (run_bundle example_env 10 ''app.py'' ''bundle.txt'') = Inr True"
  by code_simp+

text \<open>
  The project of the example with two more directory entries: \<^verbatim>\<open>/proj/loop.py\<close> and
  \<^verbatim>\<open>/out/loop.txt\<close> are symbolic links to themselves. They are no files (\<^verbatim>\<open>is_file()\<close>
  and \<^verbatim>\<open>exists()\<close> answer \<open>False\<close> for them).
\<close>

definition loop_env :: env where
  "loop_env = example_env\<lparr>symlink_loop :=
     (\<lambda>p. p \<in> set [[''proj'', ''loop.py''], [''out'', ''loop.txt'']])\<rparr>"

text \<open>
  Claim C7. An entry path that refers to no existing file must make
  \<^verbatim>\<open>run_bundling_process\<close> return \<open>False\<close>. The code resolves the path first, at line 295,
  outside every \<^verbatim>\<open>try\<close> block and before the check of line 298. For the entry path
  \<^verbatim>\<open>/proj/loop.py\<close>, a symbolic link to itself, \<^verbatim>\<open>resolve()\<close> raises \<^verbatim>\<open>RuntimeError\<close>; for
  an entry path with a null character in its name (no file has such a name) it raises
  \<^verbatim>\<open>ValueError\<close>. In both runs the exception reaches the caller in place of the flag
  \<open>False\<close>, after the first progress line only; no output file is created.
\<close>

theorem unresolvable_entry_path_reaches_the_caller:
  "\<not> fs_is_file loop_env [''proj'', ''loop.py''] \<and>
   run_bundle loop_env 10 ''/proj/loop.py'' ''/out/bundle.txt''
     = (Inl RuntimeError, [Starting], None) \<and>
   run_bundle example_env 10 (''/proj/missing'' @ [CHR 0x00] @ ''.py'') ''/out/bundle.txt''
     = (Inl ValueError, [Starting], None)"
  by code_simp

text \<open>
  The three \<^verbatim>\<open>try\<close> blocks do what the function promises. When both arguments are
  resolved, the entry file exists and the root is located, the function returns a flag and
  propagates nothing: an exception raised in the graph-building block, in the sorting block
  or by the writer is caught, logged with its traceback, and turned into \<open>False\<close>. The
  handlers are \<^verbatim>\<open>except Exception\<close>, and the exceptions of the model are subclasses of
  \<^verbatim>\<open>Exception\<close>; a \<^verbatim>\<open>SystemExit\<close> or \<^verbatim>\<open>KeyboardInterrupt\<close> passes the handlers and is
  not part of the model.
\<close>

lemma exceptions_in_the_three_try_blocks_are_caught:
  assumes rm: "resolve_call main_py_file = Inr main_path"
    and ro: "resolve_call output_txt_file = Inr output_path"
    and f: "is_file_call main_path = Inr True"
    and l: "locate_root_call main_path = Inr found"
    and r: "root_and_log found main_path = (project_root, log0)"
  shows "(\<exists>ok log written.
            run_bundling_process resolve_call is_file_call locate_root_call build_call sort_call
              set_order write_call main_py_file output_txt_file = (Inr ok, log, written)) \<and>
         (\<forall>e log1. build_phase build_call main_path project_root log0 = (Inl e, log1) \<longrightarrow>
            run_bundling_process resolve_call is_file_call locate_root_call build_call sort_call
              set_order write_call main_py_file output_txt_file
            = (Inr False, log1 @ [ErrorBuilding e, Traceback e], None)) \<and>
         (\<forall>graph log1 e log2.
            build_phase build_call main_path project_root log0 = (Inr graph, log1) \<and>
            sort_phase sort_call set_order graph main_path project_root log1 = (Inl e, log2) \<longrightarrow>
            run_bundling_process resolve_call is_file_call locate_root_call build_call sort_call
              set_order write_call main_py_file output_txt_file
            = (Inr False, log2 @ [ErrorSorting e, Traceback e], None)) \<and>
         (\<forall>graph log1 sorted_files log2 e written.
            build_phase build_call main_path project_root log0 = (Inr graph, log1) \<and>
            sort_phase sort_call set_order graph main_path project_root log1
              = (Inr sorted_files, log2) \<and>
            write_call sorted_files output_path project_root = (Inl e, written) \<longrightarrow>
            run_bundling_process resolve_call is_file_call locate_root_call build_call sort_call
              set_order write_call main_py_file output_txt_file
            = (Inr False, log2 @ [ErrorCreating e, Traceback e], written))"
proof (intro conjI allI impI)
  show "\<exists>ok log written.
            run_bundling_process resolve_call is_file_call locate_root_call build_call sort_call
              set_order write_call main_py_file output_txt_file = (Inr ok, log, written)"
    using rm ro f l r unfolding run_bundling_process_def
    by (auto split: sum.splits prod.splits bool.splits)
next
  fix e log1
  assume "build_phase build_call main_path project_root log0 = (Inl e, log1)"
  with rm ro f l r show "run_bundling_process resolve_call is_file_call locate_root_call
              build_call sort_call set_order write_call main_py_file output_txt_file
            = (Inr False, log1 @ [ErrorBuilding e, Traceback e], None)"
    by (simp add: run_bundling_process_def)
next
  fix graph log1 e log2
  assume "build_phase build_call main_path project_root log0 = (Inr graph, log1) \<and>
            sort_phase sort_call set_order graph main_path project_root log1 = (Inl e, log2)"
  with rm ro f l r show "run_bundling_process resolve_call is_file_call locate_root_call
              build_call sort_call set_order write_call main_py_file output_txt_file
            = (Inr False, log2 @ [ErrorSorting e, Traceback e], None)"
    by (simp add: run_bundling_process_def)
next
  fix graph log1 sorted_files log2 e written
  assume "build_phase build_call main_path project_root log0 = (Inr graph, log1) \<and>
            sort_phase sort_call set_order graph main_path project_root log1
              = (Inr sorted_files, log2) \<and>
            write_call sorted_files output_path project_root = (Inl e, written)"
  with rm ro f l r show "run_bundling_process resolve_call is_file_call locate_root_call
              build_call sort_call set_order write_call main_py_file output_txt_file
            = (Inr False, log2 @ [ErrorCreating e, Traceback e], written)"
    by (simp add: run_bundling_process_def)
qed

text \<open>
  Two runs on the project of the example. With stack for three nested calls the sorter runs
  out of stack: the exception is logged and the run fails. With an output path that cannot
  be opened the writer raises, and the run fails in the same way.
\<close>

lemma recursion_error_is_caught:
  "run_bundle example_env 3 ''/proj/app.py'' ''/out/bundle.txt''
     = (Inr False,
        [Starting, DetectedRoot [''proj''], IdentifiedFiles, Item [''app.py''],
         Item [''utils.py''], Item [''pkg'', ''__init__.py''], Item [''pkg'', ''helpers.py''],
         ErrorSorting RecursionError, Traceback RecursionError],
        None)"
  by code_simp

lemma output_error_is_caught:
  "fst (run_bundle (example_env\<lparr>can_write := (\<lambda>p. False)\<rparr>) 10 ''/proj/app.py''
          ''/out/bundle.txt'') = Inr False"
  by code_simp

text \<open>
  Claim C6. \<^verbatim>\<open>run_bundling_process\<close> must return \<open>False\<close> on every failure and propagate
  no exception. The statements before the first \<^verbatim>\<open>try\<close> are not covered by any handler.
  With the existing entry file \<^verbatim>\<open>/proj/app.py\<close> and an output path that holds a null
  character, \<^verbatim>\<open>Path(output_txt_file).resolve()\<close> at line 296 raises \<^verbatim>\<open>ValueError\<close>; with
  the output path \<^verbatim>\<open>/out/loop.txt\<close>, a symbolic link to itself, it raises
  \<^verbatim>\<open>RuntimeError\<close>. In both runs the exception reaches the caller: the result is no flag,
  and nothing but the first progress line is logged.
\<close>

theorem unresolvable_output_path_reaches_the_caller:
  "fs_is_file example_env [''proj'', ''app.py''] \<and>
   run_bundle example_env 10 ''/proj/app.py'' (''/out/bundle'' @ [CHR 0x00] @ ''.txt'')
     = (Inl ValueError, [Starting], None) \<and>
   fs_is_file loop_env [''proj'', ''app.py''] \<and>
   run_bundle loop_env 10 ''/proj/app.py'' ''/out/loop.txt''
     = (Inl RuntimeError, [Starting], None)"
  by code_simp

section \<open>Runs and the iteration order of sets\<close>

text \<open>
  The keys of the built graph are the files reachable from the entry file through
  dependencies that lie under the project root; this does not depend on the order in which
  the dependency sets are iterated.
\<close>

definition root_edges :: "('a \<times> 'a list) list \<Rightarrow> ('a \<Rightarrow> bool) \<Rightarrow> ('a \<times> 'a) set" where
  "root_edges project in_root = {(a, b). b \<in> set (find_imports project a) \<and> in_root b}"

lemma built_keys_reachable:
  assumes b: "build_dependency_graph project in_root main = (g, F)"
  shows "set (map fst g) = {x. in_root main \<and> (main, x) \<in> (root_edges project in_root)\<^sup>*}"
proof (intro set_eqI iffI)
  fix k assume k: "k \<in> set (map fst g)"
  note f = built_graph_facts[OF b]
  from k have ne: "g \<noteq> []" by auto
  from f(7)[OF ne] ne have "main \<in> set (map fst g)" by (cases g) auto
  then have rm: "in_root main" by (rule f(3))
  have "in_root x \<longrightarrow> (main, x) \<in> (root_edges project in_root)\<^sup>*"
    if "(main, x) \<in> (edges_of g)\<^sup>*" for x
    using that
  proof (induction rule: rtrancl_induct)
    case base
    show ?case by simp
  next
    case (step y z)
    from step.hyps(2) have e: "z \<in> set (graph_get g y)" by (simp add: edges_of_def)
    from graph_get_in_nodes[OF e] have yk: "y \<in> set (map fst g)" by simp
    from f(3)[OF yk] step.IH have ry: "(main, y) \<in> (root_edges project in_root)\<^sup>*" by simp
    show ?case
    proof
      assume "in_root z"
      with e f(4)[OF yk] have "(y, z) \<in> root_edges project in_root"
        by (simp add: root_edges_def)
      with ry show "(main, z) \<in> (root_edges project in_root)\<^sup>*" by (rule rtrancl_into_rtrancl)
    qed
  qed
  with f(5)[OF k] f(3)[OF k] rm
  show "k \<in> {x. in_root main \<and> (main, x) \<in> (root_edges project in_root)\<^sup>*}" by simp
next
  fix x assume "x \<in> {x. in_root main \<and> (main, x) \<in> (root_edges project in_root)\<^sup>*}"
  then have rm: "in_root main" and r: "(main, x) \<in> (root_edges project in_root)\<^sup>*" by simp_all
  note f = built_graph_facts[OF b]
  from r show "x \<in> set (map fst g)"
  proof (induction rule: rtrancl_induct)
    case base
    from rm show ?case by (rule f(8))
  next
    case (step y z)
    from step.hyps(2) have "z \<in> set (find_imports project y)" "in_root z"
      by (simp_all add: root_edges_def)
    with step.IH show ?case by (intro f(6)[of y z])
  qed
qed

lemma built_nodes_characterised:
  assumes b: "build_dependency_graph project in_root main = (g, F)"
  shows "set (nodes g) = set (map fst g) \<union> (\<Union>k\<in>set (map fst g). set (find_imports project k))"
proof -
  note f = built_graph_facts[OF b]
  have "(\<Union>k\<in>set (map fst g). set (graph_get g k))
      = (\<Union>k\<in>set (map fst g). set (find_imports project k))"
    using f(4) by simp
  then show ?thesis by (simp add: nodes_def)
qed

definition same_dependency_sets :: "('a \<times> 'a list) list \<Rightarrow> ('a \<times> 'a list) list \<Rightarrow> bool" where
  "same_dependency_sets p1 p2 \<longleftrightarrow> (\<forall>f. set (find_imports p1 f) = set (find_imports p2 f))"

lemma same_sets_same_nodes:
  assumes s: "same_dependency_sets p1 p2"
    and b1: "build_dependency_graph p1 in_root main = (g1, F1)"
    and b2: "build_dependency_graph p2 in_root main = (g2, F2)"
  shows "set (nodes g1) = set (nodes g2)"
proof -
  from s have "root_edges p1 in_root = root_edges p2 in_root"
    by (simp add: root_edges_def same_dependency_sets_def)
  with built_keys_reachable[OF b1] built_keys_reachable[OF b2]
  have k: "set (map fst g1) = set (map fst g2)" by simp
  from s have "set (find_imports p1 f) = set (find_imports p2 f)" for f
    by (simp add: same_dependency_sets_def)
  with k show ?thesis
    unfolding built_nodes_characterised[OF b1] built_nodes_characterised[OF b2] by simp
qed


lemma try_candidates_hash_key [simp]:
  "try_candidates (env\<lparr>hash_key := h\<rparr>) project_root p = try_candidates env project_root p"
  by (auto simp: try_candidates_def Let_def split: sum.splits)

lemma resolve_module_hash_key [simp]:
  "resolve_module (env\<lparr>hash_key := h\<rparr>) file_path project_root module_name level
     = resolve_module env file_path project_root module_name level"
  by (simp add: resolve_module_def external_module_def Let_def split: sum.splits option.splits)

lemma visit_Import_hash_key [simp]:
  "visit_Import (env\<lparr>hash_key := h\<rparr>) file_path project_root names deps
     = visit_Import env file_path project_root names deps"
  by (induction names arbitrary: deps) (simp_all split: sum.splits option.splits)

lemma visit_ImportFrom_hash_key [simp]:
  "visit_ImportFrom (env\<lparr>hash_key := h\<rparr>) file_path project_root module level deps
     = visit_ImportFrom env file_path project_root module level deps"
  by (simp add: visit_ImportFrom_def)

lemma visit_stmts_hash_key [simp]:
  "visit_stmts (env\<lparr>hash_key := h\<rparr>) file_path project_root stmts deps
     = visit_stmts env file_path project_root stmts deps"
  by (induction stmts arbitrary: deps) (simp_all split: sum.splits import_stmt.splits)

lemma find_imports_set_hash_key:
  "set (ImportAnalyzer_find_imports (env\<lparr>hash_key := h\<rparr>) project_root file_path)
     = set (ImportAnalyzer_find_imports env project_root file_path)"
  by (simp add: ImportAnalyzer_find_imports_def
           split: option.splits parsed.splits sum.splits)

lemma project_tables_same_sets:
  "same_dependency_sets (project_table (env\<lparr>hash_key := h1\<rparr>) project_root)
     (project_table (env\<lparr>hash_key := h2\<rparr>) project_root)"
  by (simp add: same_dependency_sets_def find_imports_project_table find_imports_set_hash_key)

text \<open>
  Claim C2, amended. Two runs over the same project that differ only in the hashes of the
  paths, and so in the iteration order of the sets, bundle the same files: the sorter
  returns in both, the two final orders hold the same files, each once, and the entry file
  is last in both.
\<close>

theorem bundle_holds_same_files_in_every_run:
  assumes b1: "build_dependency_graph (project_table (env\<lparr>hash_key := h1\<rparr>) project_root)
                 (\<lambda>p. is_relative_to p project_root) main_path = (g1, all_files1)"
    and b2: "build_dependency_graph (project_table (env\<lparr>hash_key := h2\<rparr>) project_root)
                 (\<lambda>p. is_relative_to p project_root) main_path = (g2, all_files2)"
    and d: "card (set (nodes g1)) < depth"
  shows "\<exists>order1 cycles1 order2 cycles2.
           topological_sort depth g1 = Inr (order1, cycles1) \<and>
           topological_sort depth g2 = Inr (order2, cycles2) \<and>
           set (final_order main_path order1) = set (final_order main_path order2) \<and>
           distinct (final_order main_path order1) \<and> distinct (final_order main_path order2) \<and>
           last (final_order main_path order1) = main_path \<and>
           last (final_order main_path order2) = main_path"
proof -
  from same_sets_same_nodes[OF project_tables_same_sets b1 b2]
  have n: "set (nodes g1) = set (nodes g2)" .
  with d have d2: "card (set (nodes g2)) < depth" by simp
  from topological_sort_correct[OF d] obtain order1 cycles1 where
    s1: "topological_sort depth g1 = Inr (order1, cycles1)" and dist1: "distinct order1"
    and c1: "set order1 = set (nodes g1)" by blast
  from topological_sort_correct[OF d2] obtain order2 cycles2 where
    s2: "topological_sort depth g2 = Inr (order2, cycles2)" and dist2: "distinct order2"
    and c2: "set order2 = set (nodes g2)" by blast
  from c1 c2 n have "set (final_order main_path order1) = set (final_order main_path order2)"
    by (simp add: set_final_order)
  moreover have "last (final_order main_path order1) = main_path"
    "last (final_order main_path order2) = main_path" by (simp_all add: final_order_def)
  ultimately show ?thesis
    using s1 s2 distinct_final_order[OF dist1] distinct_final_order[OF dist2] by blast
qed

text \<open>
  Claim C2 as stated fails. \<^verbatim>\<open>main.py\<close> imports \<^verbatim>\<open>b\<close> and \<^verbatim>\<open>c\<close>; with one hash function
  the set of its dependencies is iterated as \<^verbatim>\<open>b, c\<close>, with another as \<^verbatim>\<open>c, b\<close>, and the
  two output files differ.
\<close>

definition two_imports_env :: env where
  "two_imports_env = \<lparr>
     fs_is_file = (\<lambda>p. p \<in> set [[''proj'', ''main.py''], [''proj'', ''b.py''],
                                  [''proj'', ''c.py''], [''proj'', ''setup.py'']]),
     fs_is_dir = (\<lambda>p. p \<in> set [[], [''proj'']]),
     fs_exists = (\<lambda>p. p \<in> set [[], [''proj''], [''proj'', ''main.py''], [''proj'', ''b.py''],
                                 [''proj'', ''c.py''], [''proj'', ''setup.py'']]),
     fs_resolve = (\<lambda>p. p),
     find_spec = (\<lambda>name. NoSpec),
     builtin_module_names = [''sys'', ''builtins''],
     sources = [([''proj'', ''main.py''], Parsed [Import [''b''], Import [''c'']]),
                ([''proj'', ''b.py''], Parsed []),
                ([''proj'', ''c.py''], Parsed [])],
     hash_key = (\<lambda>p. 0),
     read_text = (\<lambda>p. if p = [''proj'', ''main.py''] then Content ''import b, c''
                       else if p = [''proj'', ''b.py''] then Content ''B = 1''
                       else if p = [''proj'', ''c.py''] then Content ''C = 2''
                       else FileNotFoundError),
     can_write = (\<lambda>p. True),
     value_error_text = (\<lambda>p. []),
     cwd = [''proj''],
     symlink_loop = (\<lambda>p. False)\<rparr>"

definition other_hash :: "path \<Rightarrow> nat" where
  "other_hash p = (if p = [''proj'', ''c.py''] then 0 else 1)"

theorem output_depends_on_set_order_counterexample:
  "snd (snd (run_bundle two_imports_env 10 ''/proj/main.py'' ''/out.txt''))
     \<noteq> snd (snd (run_bundle (two_imports_env\<lparr>hash_key := other_hash\<rparr>) 10
                      ''/proj/main.py'' ''/out.txt''))"
  by code_simp

text \<open>The two runs of that project, as an instance of the amended claim.\<close>

theorem bundle_holds_same_files_in_every_run_witness:
  "build_dependency_graph (project_table (two_imports_env\<lparr>hash_key := (\<lambda>p. 0)\<rparr>) [''proj''])
       (\<lambda>p. is_relative_to p [''proj'']) [''proj'', ''main.py'']
     = ([([''proj'', ''main.py''], [[''proj'', ''b.py''], [''proj'', ''c.py'']]),
         ([''proj'', ''b.py''], []), ([''proj'', ''c.py''], [])],
        {[''proj'', ''main.py''], [''proj'', ''b.py''], [''proj'', ''c.py'']}) \<and>
   build_dependency_graph (project_table (two_imports_env\<lparr>hash_key := other_hash\<rparr>) [''proj''])
       (\<lambda>p. is_relative_to p [''proj'']) [''proj'', ''main.py'']
     = ([([''proj'', ''main.py''], [[''proj'', ''c.py''], [''proj'', ''b.py'']]),
         ([''proj'', ''c.py''], []), ([''proj'', ''b.py''], [])],
        {[''proj'', ''main.py''], [''proj'', ''b.py''], [''proj'', ''c.py'']}) \<and>
   card (set (nodes [([''proj'', ''main.py''], [[''proj'', ''b.py''], [''proj'', ''c.py'']]),
         ([''proj'', ''b.py''], []), ([''proj'', ''c.py''], [])])) < 10 \<and>
   (\<exists>order1 cycles1 order2 cycles2.
      topological_sort 10 [([''proj'', ''main.py''], [[''proj'', ''b.py''], [''proj'', ''c.py'']]),
         ([''proj'', ''b.py''], []), ([''proj'', ''c.py''], [])] = Inr (order1, cycles1) \<and>
      topological_sort 10 [([''proj'', ''main.py''], [[''proj'', ''c.py''], [''proj'', ''b.py'']]),
         ([''proj'', ''c.py''], []), ([''proj'', ''b.py''], [])] = Inr (order2, cycles2) \<and>
      set (final_order [''proj'', ''main.py''] order1) = set (final_order [''proj'', ''main.py''] order2) \<and>
      distinct (final_order [''proj'', ''main.py''] order1) \<and>
      distinct (final_order [''proj'', ''main.py''] order2) \<and>
      last (final_order [''proj'', ''main.py''] order1) = [''proj'', ''main.py''] \<and>
      last (final_order [''proj'', ''main.py''] order2) = [''proj'', ''main.py''])"
proof -
  have h1: "build_dependency_graph (project_table (two_imports_env\<lparr>hash_key := (\<lambda>p. 0)\<rparr>) [''proj''])
       (\<lambda>p. is_relative_to p [''proj'']) [''proj'', ''main.py'']
     = ([([''proj'', ''main.py''], [[''proj'', ''b.py''], [''proj'', ''c.py'']]),
         ([''proj'', ''b.py''], []), ([''proj'', ''c.py''], [])],
        {[''proj'', ''main.py''], [''proj'', ''b.py''], [''proj'', ''c.py'']})"
    by code_simp
  have h2: "build_dependency_graph (project_table (two_imports_env\<lparr>hash_key := other_hash\<rparr>) [''proj''])
       (\<lambda>p. is_relative_to p [''proj'']) [''proj'', ''main.py'']
     = ([([''proj'', ''main.py''], [[''proj'', ''c.py''], [''proj'', ''b.py'']]),
         ([''proj'', ''c.py''], []), ([''proj'', ''b.py''], [])],
        {[''proj'', ''main.py''], [''proj'', ''b.py''], [''proj'', ''c.py'']})"
    by code_simp
  have h3: "card (set (nodes [([''proj'', ''main.py''], [[''proj'', ''b.py''], [''proj'', ''c.py'']]),
         ([''proj'', ''b.py''], []), ([''proj'', ''c.py''], [])])) < 10"
    by code_simp
  from h1 h2 h3 bundle_holds_same_files_in_every_run[OF h1 h2 h3] show ?thesis by blast
qed

end
